theory Spec2Isabelle
  imports Complex_Main "HOL-Library.Multiset" "HOL-Library.List_Lexorder" "HOL-Library.Char_ord"
begin

section \<open>The deduplication cache (dedup.py)\<close>

text \<open>
  \<^verbatim>\<open>DedupCache\<close> keeps an \<^verbatim>\<open>OrderedDict\<close> from key to the time the key was
  inserted. The dictionary is modelled as an association list in dictionary order
  (head = the entry \<^verbatim>\<open>popitem(last=False)\<close> removes), with pairwise different
  keys. The reading of \<^verbatim>\<open>time.time()\<close> is an argument of the operation; times are
  real numbers (the rounding of floating point subtraction is not modelled).
\<close>

datatype py_error =
    ValueError string | RuntimeError string | TypeError string | AttributeError string
  | TransportError string

record DedupCache =
  ttl_sec :: int
  max_keys :: int
  seen :: "(string \<times> real) list"

definition DedupCache_init :: "int \<Rightarrow> int \<Rightarrow> py_error + DedupCache" where
  "DedupCache_init ttl mx =
     (if ttl \<le> 0 then Inl (ValueError ''ttl_sec must be > 0'')
      else if mx \<le> 0 then Inl (ValueError ''max_keys must be > 0'')
      else Inr \<lparr>ttl_sec = ttl, max_keys = mx, seen = []\<rparr>)"

text \<open>
  \<^verbatim>\<open>_prune\<close>: while the dictionary is not empty, look at its first entry; stop
  when its timestamp is greater than the cutoff, remove it otherwise.
\<close>

fun prune_entries :: "real \<Rightarrow> (string \<times> real) list \<Rightarrow> (string \<times> real) list" where
  "prune_entries cutoff [] = []"
| "prune_entries cutoff ((k, ts) # xs) =
     (if ts > cutoff then (k, ts) # xs else prune_entries cutoff xs)"

definition prune :: "DedupCache \<Rightarrow> real \<Rightarrow> DedupCache" where
  "prune c now = c\<lparr>seen := prune_entries (now - real_of_int (ttl_sec c)) (seen c)\<rparr>"

text \<open>
  \<^verbatim>\<open>_enforce_max\<close>: while there are more than \<^verbatim>\<open>max_keys\<close> entries, remove the
  first. (On an empty dictionary the loop body would only run for a negative
  \<^verbatim>\<open>max_keys\<close>, which the constructor refuses.)
\<close>

fun enforce_entries :: "int \<Rightarrow> (string \<times> real) list \<Rightarrow> (string \<times> real) list" where
  "enforce_entries mx [] = []"
| "enforce_entries mx (x # xs) =
     (if int (length (x # xs)) > mx then enforce_entries mx xs else x # xs)"

definition enforce_max :: "DedupCache \<Rightarrow> DedupCache" where
  "enforce_max c = c\<lparr>seen := enforce_entries (max_keys c) (seen c)\<rparr>"

text \<open>\<^verbatim>\<open>OrderedDict.move_to_end(key)\<close> for a key that is present.\<close>

definition move_to_end :: "string \<Rightarrow> (string \<times> real) list \<Rightarrow> (string \<times> real) list" where
  "move_to_end key xs =
     (case map_of xs key of
        None \<Rightarrow> xs
      | Some ts \<Rightarrow> filter (\<lambda>p. fst p \<noteq> key) xs @ [(key, ts)])"

text \<open>
  \<^verbatim>\<open>seen_recently(key)\<close> with \<^verbatim>\<open>now = time.time()\<close>: the answer and the cache
  after the call.
\<close>

definition seen_recently :: "DedupCache \<Rightarrow> string \<Rightarrow> real \<Rightarrow> bool \<times> DedupCache" where
  "seen_recently c key now =
     (let c1 = prune c now in
      case map_of (seen c1) key of
        None \<Rightarrow> (False, enforce_max (c1\<lparr>seen := seen c1 @ [(key, now)]\<rparr>))
      | Some ts \<Rightarrow>
          (now - ts \<le> real_of_int (ttl_sec c1),
           c1\<lparr>seen := move_to_end key (seen c1)\<rparr>))"

text \<open>A sequence of calls, each with its key and its clock reading.\<close>

fun run_calls :: "DedupCache \<Rightarrow> (string \<times> real) list \<Rightarrow> DedupCache" where
  "run_calls c [] = c"
| "run_calls c ((k, now) # ops) = run_calls (snd (seen_recently c k now)) ops"

text \<open>The dictionary has no key twice.\<close>

definition wf_cache :: "DedupCache \<Rightarrow> bool" where
  "wf_cache c = distinct (map fst (seen c))"

text \<open>The state of a cache that the constructor and the calls can reach.\<close>

definition cache_inv :: "DedupCache \<Rightarrow> bool" where
  "cache_inv c =
     (wf_cache c \<and> 0 < ttl_sec c \<and> 0 < max_keys c \<and> int (length (seen c)) \<le> max_keys c)"

text \<open>
  A proof device for the time-to-live window: in the dictionary order, every entry in
  front of key \<open>k\<close> has a timestamp of at most \<open>t\<close>, and \<open>k\<close> itself is stored
  with timestamp \<open>t\<close>. (Nothing is asked when \<open>k\<close> is not stored.)
\<close>

fun guarded :: "string \<Rightarrow> real \<Rightarrow> (string \<times> real) list \<Rightarrow> bool" where
  "guarded k t [] = True"
| "guarded k t ((j, ts) # xs) =
     (if j = k then ts = t
      else (k \<in> fst ` set xs \<longrightarrow> ts \<le> t) \<and> guarded k t xs)"

section \<open>Values and strings of the Python runtime\<close>

text \<open>
  What \<^verbatim>\<open>json.loads\<close> returns: \<^verbatim>\<open>None\<close>, a bool, an int, a float, a str, a list
  or a dict. A dict is the list of its items in insertion order, with pairwise
  different keys. Strings are byte strings (UTF-8), on which the lexicographic order
  is the order of Python's strings by code point.
\<close>

datatype json =
    JNull | JBool bool | JInt int | JFloat real | JStr string
  | JArr "json list" | JObj "(string \<times> json) list"

text \<open>\<^verbatim>\<open>str\<close> of an int: its decimal digits, with a minus sign when negative.\<close>

definition digit_char :: "nat \<Rightarrow> char" where
  "digit_char d = char_of (48 + d)"

fun str_nat :: "nat \<Rightarrow> string" where
  "str_nat n = (if n < 10 then [digit_char n] else str_nat (n div 10) @ [digit_char (n mod 10)])"

declare str_nat.simps [simp del]

definition str_int :: "int \<Rightarrow> string" where
  "str_int i = (if i < 0 then CHR ''-'' # str_nat (nat (- i)) else str_nat (nat i))"

text \<open>
  Functions of the Python runtime and its standard library that the program calls and
  that are not part of the repository: \<^verbatim>\<open>repr\<close> of a float, a list or a dict (what
  an f-string prints for such a value), the JSON encoding of a string (quotes and
  escapes), and \<^verbatim>\<open>hash\<close> of a string, which is one fixed function during the life
  of a process.
\<close>

record pylib =
  py_repr :: "json \<Rightarrow> string"
  float_repr :: "real \<Rightarrow> string"
  json_string :: "string \<Rightarrow> string"
  str_hash :: "string \<Rightarrow> int"

text \<open>What an f-string prints for a value (\<^verbatim>\<open>format(v, '')\<close>, that is \<^verbatim>\<open>str(v)\<close>).\<close>

fun py_str :: "pylib \<Rightarrow> json \<Rightarrow> string" where
  "py_str lib JNull = ''None''"
| "py_str lib (JBool b) = (if b then ''True'' else ''False'')"
| "py_str lib (JInt i) = str_int i"
| "py_str lib (JStr s) = s"
| "py_str lib v = py_repr lib v"

text \<open>\<^verbatim>\<open>str(d.get(key))\<close>: a missing key gives \<^verbatim>\<open>None\<close>.\<close>

definition get_str :: "pylib \<Rightarrow> (string \<times> json) list \<Rightarrow> string \<Rightarrow> string" where
  "get_str lib d key = (case map_of d key of None \<Rightarrow> ''None'' | Some v \<Rightarrow> py_str lib v)"

text \<open>\<^verbatim>\<open>str(d.get(key, default))\<close> for a string default.\<close>

definition get_str_default :: "pylib \<Rightarrow> (string \<times> json) list \<Rightarrow> string \<Rightarrow> string \<Rightarrow> string" where
  "get_str_default lib d key dflt = (case map_of d key of None \<Rightarrow> dflt | Some v \<Rightarrow> py_str lib v)"

fun join_with :: "string \<Rightarrow> string list \<Rightarrow> string" where
  "join_with sep [] = []"
| "join_with sep [x] = x"
| "join_with sep (x # y # ys) = x @ sep @ join_with sep (y # ys)"

text \<open>
  \<^verbatim>\<open>json.dumps(v, sort_keys=True, separators=(',', ':'))\<close>: the items of every dict
  are written in the order of their keys.
\<close>

function (sequential) json_dumps :: "pylib \<Rightarrow> json \<Rightarrow> string" where
  "json_dumps lib JNull = ''null''"
| "json_dumps lib (JBool b) = (if b then ''true'' else ''false'')"
| "json_dumps lib (JInt i) = str_int i"
| "json_dumps lib (JFloat r) = float_repr lib r"
| "json_dumps lib (JStr s) = json_string lib s"
| "json_dumps lib (JArr vs) = ''['' @ join_with '','' (map (json_dumps lib) vs) @ '']''"
| "json_dumps lib (JObj kvs) =
     ''{'' @ join_with '',''
        (map (\<lambda>p. json_string lib (fst p) @ '':'' @ json_dumps lib (snd p))
           (sort_key fst kvs)) @ ''}''"
  by pat_completeness auto
termination
proof (relation "measure (\<lambda>(lib, v). size v)")
  show "wf (measure (\<lambda>(lib :: pylib, v :: json). size v))" by simp
next
  fix lib :: pylib and vs :: "json list" and x :: json
  assume "x \<in> set vs"
  then have "size x < Suc (size_list size vs)"
    by (induction vs) auto
  then show "((lib, x), (lib, JArr vs)) \<in> measure (\<lambda>(lib, v). size v)" by simp
next
  fix lib :: pylib and kvs :: "(string \<times> json) list" and x :: "string \<times> json"
  assume "x \<in> set (sort_key fst kvs)"
  then have "x \<in> set kvs" by simp
  moreover have "size (snd x) \<le> size_prod (\<lambda>_. 0) size x"
    by (cases x) simp
  ultimately have "size (snd x) \<le> size_list (size_prod (\<lambda>_. 0) size) kvs"
    by (rule size_list_estimation')
  then have "size (snd x) < Suc (size_list (size_prod (\<lambda>_. 0) size) kvs)"
    by simp
  then show "((lib, snd x), (lib, JObj kvs)) \<in> measure (\<lambda>(lib, v). size v)" by simp
qed

section \<open>The paging client (pagerduty.py)\<close>

text \<open>
  The HTTP client is outside the repository. A \<^verbatim>\<open>post\<close> either raises (no response
  arrived) or returns a response with a status code and a text. The backend is a
  function from the request to what \<^verbatim>\<open>post\<close> does; an operation of the client returns
  its result together with the requests it has sent.
\<close>

datatype http_result = Response int string | NoResponse string

type_synonym http_request = "string \<times> json"

record PagerDutyClient =
  routing_key :: string
  events_api_url :: string
  source :: string
  severity :: string
  dry_run :: bool

record trigger_args =
  dedup_key :: string
  summary :: string
  custom_details :: "(string \<times> json) list"
  component :: "string option"
  group :: "string option"
  class_arg :: "string option"

text \<open>\<^verbatim>\<open>if component: payload["component"] = component\<close>, for \<open>None\<close> or a string.\<close>

definition optional_field :: "string \<Rightarrow> string option \<Rightarrow> (string \<times> json) list" where
  "optional_field name v =
     (case v of None \<Rightarrow> [] | Some s \<Rightarrow> if s = [] then [] else [(name, JStr s)])"

definition trigger_body :: "PagerDutyClient \<Rightarrow> trigger_args \<Rightarrow> json" where
  "trigger_body c a =
     JObj [(''routing_key'', JStr (routing_key c)),
           (''event_action'', JStr ''trigger''),
           (''dedup_key'', JStr (dedup_key a)),
           (''payload'', JObj ([(''summary'', JStr (summary a)),
                               (''source'', JStr (source c)),
                               (''severity'', JStr (severity c)),
                               (''custom_details'', JObj (custom_details a))]
                              @ optional_field ''component'' (component a)
                              @ optional_field ''group'' (group a)
                              @ optional_field ''class'' (class_arg a)))]"

definition trigger :: "PagerDutyClient \<Rightarrow> (http_request \<Rightarrow> http_result) \<Rightarrow> trigger_args
    \<Rightarrow> (py_error + unit) \<times> http_request list" where
  "trigger c backend a =
     (if dry_run c then (Inr (), [])
      else
        let req = (events_api_url c, trigger_body c a) in
        case backend req of
          NoResponse e \<Rightarrow> (Inl (TransportError e), [req])
        | Response status_code txt \<Rightarrow>
            if status_code \<noteq> 202
            then (Inl (RuntimeError (''PagerDuty error: '' @ str_int status_code @ '' '' @ txt
                        @ '' (dedup_key='' @ dedup_key a @ '')'')), [req])
            else (Inr (), [req]))"

definition resolve_body :: "PagerDutyClient \<Rightarrow> string \<Rightarrow> json" where
  "resolve_body c key =
     JObj [(''routing_key'', JStr (routing_key c)),
           (''event_action'', JStr ''resolve''),
           (''dedup_key'', JStr key)]"

definition resolve :: "PagerDutyClient \<Rightarrow> (http_request \<Rightarrow> http_result) \<Rightarrow> string
    \<Rightarrow> (py_error + unit) \<times> http_request list" where
  "resolve c backend key =
     (if dry_run c then (Inr (), [])
      else
        let req = (events_api_url c, resolve_body c key) in
        case backend req of
          NoResponse e \<Rightarrow> (Inl (TransportError e), [req])
        | Response status_code txt \<Rightarrow>
            if status_code \<noteq> 202
            then (Inl (RuntimeError (''PagerDuty resolve error: '' @ str_int status_code
                        @ '' '' @ txt @ '' (dedup_key='' @ key @ '')'')), [req])
            else (Inr (), [req]))"

section \<open>The reconnect loop (main.py, \<^verbatim>\<open>_runner\<close>)\<close>

text \<open>
  One connection cycle (\<^verbatim>\<open>_run_once\<close>) either returns (\<open>None\<close>) or raises an
  exception (\<open>Some e\<close>). The loop runs while the stop flag is not set; the list holds
  the outcomes of the cycles that were run. After a cycle that returned, \<^verbatim>\<open>backoff\<close>
  is set to the base; after one that raised, the loop waits \<^verbatim>\<open>backoff\<close> seconds (or
  until the stop flag is set) and then sets \<^verbatim>\<open>backoff = min(backoff * 2, max)\<close>.
  The result is the list of the delays waited and the final value of \<^verbatim>\<open>backoff\<close>.
\<close>

fun runner_loop :: "int \<Rightarrow> int \<Rightarrow> int \<Rightarrow> py_error option list \<Rightarrow> int list \<times> int" where
  "runner_loop base mx backoff [] = ([], backoff)"
| "runner_loop base mx backoff (None # rs) = runner_loop base mx base rs"
| "runner_loop base mx backoff (Some e # rs) =
     (let (ds, b) = runner_loop base mx (min (backoff * 2) mx) rs in (backoff # ds, b))"

definition runner :: "int \<Rightarrow> int \<Rightarrow> py_error option list \<Rightarrow> int list \<times> int" where
  "runner reconnect_backoff_base_sec reconnect_backoff_max_sec rs =
     runner_loop reconnect_backoff_base_sec reconnect_backoff_max_sec
       reconnect_backoff_base_sec rs"

section \<open>The receive loop (main.py)\<close>

text \<open>
  An event is the dict that \<^verbatim>\<open>json.loads\<close> returned. \<^verbatim>\<open>_dedup_key_for_event\<close>
  and \<^verbatim>\<open>_summary_for_event\<close> (the leading underscore is dropped).
\<close>

definition dedup_key_for_event :: "pylib \<Rightarrow> (string \<times> json) list \<Rightarrow> string" where
  "dedup_key_for_event lib event =
     (let ch = get_str_default lib event ''channel'' '''' in
      if ch = ''executionEvents'' then
        ''gmocoin:'' @ ch @ '':'' @ get_str lib event ''orderId''
          @ '':'' @ get_str lib event ''executionId''
      else if ch = ''orderEvents'' then
        ''gmocoin:'' @ ch @ '':'' @ get_str lib event ''orderId''
          @ '':'' @ get_str lib event ''orderStatus'' @ '':''
          @ get_str lib event ''msgType'' @ '':'' @ get_str lib event ''orderTimestamp''
      else
        ''gmocoin:'' @ ch @ '':'' @ str_int (str_hash lib (json_dumps lib (JObj event))))"

definition summary_for_event :: "pylib \<Rightarrow> (string \<times> json) list \<Rightarrow> string" where
  "summary_for_event lib event =
     (let ch = map_of event ''channel'';
          symbol = get_str_default lib event ''symbol'' ''?'';
          side = get_str_default lib event ''side'' ''?'' in
      if ch = Some (JStr ''executionEvents'') then
        ''GMO Coin execution '' @ symbol @ '' '' @ side @ '' ''
          @ ''orderId='' @ get_str lib event ''orderId''
          @ '' executionId='' @ get_str lib event ''executionId'' @ '' ''
          @ ''price='' @ get_str lib event ''executionPrice''
          @ '' size='' @ get_str lib event ''executionSize''
      else if ch = Some (JStr ''orderEvents'') then
        ''GMO Coin order '' @ symbol @ '' '' @ side @ '' ''
          @ ''orderId='' @ get_str lib event ''orderId''
          @ '' status='' @ get_str lib event ''orderStatus'' @ '' ''
          @ ''price='' @ get_str lib event ''orderPrice''
          @ '' size='' @ get_str lib event ''orderSize''
      else ''GMO Coin '' @ get_str lib event ''channel'' @ '' event'')"

text \<open>
  \<^verbatim>\<open>ch not in channels\<close>, where \<^verbatim>\<open>channels\<close> is a set of strings and \<^verbatim>\<open>ch\<close> is
  \<^verbatim>\<open>event.get("channel")\<close>: membership hashes \<^verbatim>\<open>ch\<close>, which raises \<^verbatim>\<open>TypeError\<close>
  for a list or a dict; only a string can be a member.
\<close>

definition channel_in :: "json option \<Rightarrow> string set \<Rightarrow> py_error + bool" where
  "channel_in ch channels =
     (case ch of
        Some (JStr s) \<Rightarrow> Inr (s \<in> channels)
      | Some (JArr vs) \<Rightarrow> Inl (TypeError ''unhashable type: list'')
      | Some (JObj kvs) \<Rightarrow> Inl (TypeError ''unhashable type: dict'')
      | _ \<Rightarrow> Inr False)"

text \<open>
  What the loop meets with one message of the stream: whether the stop flag is set
  when the message arrives, the text of the message, the reading of the clock if the
  cache is asked, and what the paging backend answers if it is called.
\<close>

record arrival =
  stop_is_set :: bool
  raw :: string
  clock :: real
  paging :: "http_request \<Rightarrow> http_result"

text \<open>
  The surroundings of the loop: \<^verbatim>\<open>json.loads\<close> (\<open>None\<close> when it raises), the set of
  subscribed channels, the runtime functions and the paging client.
\<close>

record recv_env =
  loads :: "string \<Rightarrow> json option"
  channels :: "string set"
  runtime :: pylib
  pd :: PagerDutyClient

datatype recv_action =
    LogNonJson string
  | LogUnexpectedType json
  | TriggerCall trigger_args
  | LogTriggered string
  | LogTriggerFailed string

datatype flow = Continue | Return | Raise py_error

text \<open>The body of \<^verbatim>\<open>async for raw in ws\<close> for one message.\<close>

definition recv_body :: "recv_env \<Rightarrow> DedupCache \<Rightarrow> arrival
    \<Rightarrow> flow \<times> DedupCache \<times> recv_action list" where
  "recv_body env c m =
     (if stop_is_set m then (Return, c, [])
      else case loads env (raw m) of
        None \<Rightarrow> (Continue, c, [LogNonJson (raw m)])
      | Some (JObj event) \<Rightarrow>
          (case channel_in (map_of event ''channel'') (channels env) of
             Inl e \<Rightarrow> (Raise e, c, [])
           | Inr False \<Rightarrow> (Continue, c, [])
           | Inr True \<Rightarrow>
               let key = dedup_key_for_event (runtime env) event;
                   r = seen_recently c key (clock m) in
               if fst r then (Continue, snd r, [])
               else
                 let summ = summary_for_event (runtime env) event;
                     args = \<lparr>dedup_key = key, summary = summ, custom_details = event,
                             component = None, group = None, class_arg = None\<rparr> in
                 (Continue, snd r,
                  [TriggerCall args,
                   case fst (trigger (pd env) (paging m) args) of
                     Inr u \<Rightarrow> LogTriggered summ
                   | Inl e \<Rightarrow> LogTriggerFailed summ]))
      | Some v \<Rightarrow> (Continue, c, [LogUnexpectedType v]))"

text \<open>
  The loop over the messages of the stream. \<open>closing\<close> is how the iteration ends
  after the last message: \<open>None\<close> for a stream that was closed normally, \<open>Some e\<close>
  for the exception of a broken connection. The result is the exception the loop
  raised (if any), the cache and the actions taken.
\<close>

fun recv_loop :: "recv_env \<Rightarrow> py_error option \<Rightarrow> DedupCache \<Rightarrow> arrival list
    \<Rightarrow> py_error option \<times> DedupCache \<times> recv_action list" where
  "recv_loop env closing c [] = (closing, c, [])"
| "recv_loop env closing c (m # ms) =
     (case recv_body env c m of
        (Continue, c', acts) \<Rightarrow>
          (case recv_loop env closing c' ms of (r, c'', acts') \<Rightarrow> (r, c'', acts @ acts'))
      | (Return, c', acts) \<Rightarrow> (None, c', acts)
      | (Raise e, c', acts) \<Rightarrow> (Some e, c', acts))"

text \<open>The calls of \<^verbatim>\<open>pd.trigger\<close> among the actions.\<close>

fun trigger_calls :: "recv_action list \<Rightarrow> trigger_args list" where
  "trigger_calls [] = []"
| "trigger_calls (TriggerCall a # acts) = a # trigger_calls acts"
| "trigger_calls (x # acts) = trigger_calls acts"

text \<open>
  A stand-in for the runtime functions, to run the model on concrete inputs: it
  quotes a string without escapes and takes the length of a string for its hash.
\<close>

definition example_lib :: pylib where
  "example_lib =
     \<lparr>py_repr = (\<lambda>v. ''<object>''), float_repr = (\<lambda>r. ''<float>''),
      json_string = (\<lambda>s. CHR 0x22 # s @ [CHR 0x22]),
      str_hash = (\<lambda>s. int (length s))\<rparr>"

text \<open>
  A message is malformed when \<^verbatim>\<open>json.loads\<close> raises on it or returns something
  that is not a dict; the warning the loop logs for it.
\<close>

definition malformed :: "recv_env \<Rightarrow> arrival \<Rightarrow> bool" where
  "malformed env m =
     (case loads env (raw m) of None \<Rightarrow> True | Some (JObj event) \<Rightarrow> False | Some v \<Rightarrow> True)"

definition malformed_log :: "recv_env \<Rightarrow> arrival \<Rightarrow> recv_action" where
  "malformed_log env m =
     (case loads env (raw m) of None \<Rightarrow> LogNonJson (raw m) | Some v \<Rightarrow> LogUnexpectedType v)"

text \<open>
  A message carries event \<open>event\<close> of a subscribed channel: the stop flag is not set
  when it arrives, it parses to the dict \<open>event\<close>, and the channel of \<open>event\<close> is
  one of the subscribed channels.
\<close>

definition carries :: "recv_env \<Rightarrow> arrival \<Rightarrow> (string \<times> json) list \<Rightarrow> bool" where
  "carries env m event =
     (\<not> stop_is_set m \<and> loads env (raw m) = Some (JObj event)
      \<and> channel_in (map_of event ''channel'') (channels env) = Inr True)"

text \<open>The arguments of the \<^verbatim>\<open>pd.trigger\<close> call the loop makes for an event.\<close>

definition alert_for :: "recv_env \<Rightarrow> (string \<times> json) list \<Rightarrow> trigger_args" where
  "alert_for env event =
     \<lparr>dedup_key = dedup_key_for_event (runtime env) event,
      summary = summary_for_event (runtime env) event,
      custom_details = event, component = None, group = None, class_arg = None\<rparr>"

text \<open>
  Concrete inputs to run the model on: the execution event of the specification's
  scenario, a second event of another order, and surroundings in which the message
  texts \<open>E1\<close> and \<open>E2\<close> stand for the JSON texts of these two events, \<open>[1]\<close>
  parses to a list, and every other text is not JSON.
\<close>

definition example_event :: "(string \<times> json) list" where
  "example_event =
     [(''channel'', JStr ''executionEvents''), (''orderId'', JStr ''O1''),
      (''executionId'', JStr ''E1''), (''symbol'', JStr ''BTC''), (''side'', JStr ''BUY''),
      (''executionPrice'', JStr ''100''), (''executionSize'', JStr ''1'')]"

definition other_event :: "(string \<times> json) list" where
  "other_event =
     [(''channel'', JStr ''executionEvents''), (''orderId'', JStr ''O2''),
      (''executionId'', JStr ''E2'')]"

definition example_env :: recv_env where
  "example_env =
     \<lparr>loads = (\<lambda>r. if r = ''E1'' then Some (JObj example_event)
                   else if r = ''E2'' then Some (JObj other_event)
                   else if r = ''[1]'' then Some (JArr [JInt 1])
                   else None),
      channels = {''executionEvents''},
      runtime = example_lib,
      pd = \<lparr>routing_key = ''rk'', events_api_url = ''https://events.pagerduty.com/v2/enqueue'',
            source = ''gmocoin-exec-alert'', severity = ''critical'', dry_run = False\<rparr>\<rparr>"

definition msg :: "string \<Rightarrow> real \<Rightarrow> arrival" where
  "msg r t = \<lparr>stop_is_set = False, raw = r, clock = t, paging = (\<lambda>q. Response 202 '''')\<rparr>"

section \<open>One connection cycle (main.py, \<^verbatim>\<open>_run_once\<close>; gmo.py)\<close>

text \<open>The fields of the configuration that the cycle reads before it connects.\<close>

record Config =
  gmocoin_private_ws_base :: string
  dedup_ttl_sec :: int
  dedup_max_keys :: int
  process_monitor_enabled :: bool

text \<open>
  What the cycle meets: the result of \<^verbatim>\<open>load_config\<close>; what the signed request of
  \<^verbatim>\<open>create_ws_token\<close> returns (an exception, \<open>None\<close> for an empty body, or the
  parsed JSON); whether \<^verbatim>\<open>websockets.connect\<close> fails; how the body of the
  \<^verbatim>\<open>async with\<close> block ends (the subscriptions, the wait for the first task to
  finish and its result, the closing of the stream: \<open>None\<close> when no exception
  leaves the block); and whether \<^verbatim>\<open>delete_ws_token\<close>, \<^verbatim>\<open>pd.aclose\<close> and
  \<^verbatim>\<open>gmo.aclose\<close> raise. The tasks of the block run interleaved; only the way the
  block ends is seen here.
\<close>

record cycle_env =
  config_res :: "py_error + Config"
  ws_auth_resp :: "py_error + json option"
  connect_res :: "py_error option"
  session_res :: "py_error option"
  delete_res :: "py_error option"
  pd_aclose_res :: "py_error option"
  gmo_aclose_res :: "py_error option"

text \<open>The calls the cycle makes, in order; the revoke call is kept with its outcome.\<close>

datatype effect =
    CallCreateToken
  | WsConnect string
  | CallDeleteToken string "py_error option"
  | PdAclose
  | GmoAclose

text \<open>
  \<^verbatim>\<open>create_ws_token\<close>: the field \<^verbatim>\<open>data\<close> of the response must be a non-empty
  string. (\<^verbatim>\<open>resp.get\<close> raises \<^verbatim>\<open>AttributeError\<close> when the response is not a dict.)
\<close>

definition create_ws_token :: "py_error + json option \<Rightarrow> py_error + string" where
  "create_ws_token resp =
     (case resp of
        Inl e \<Rightarrow> Inl e
      | Inr (Some (JObj d)) \<Rightarrow>
          (case map_of d ''data'' of
             Some (JStr s) \<Rightarrow>
               if s = [] then Inl (RuntimeError ''Unexpected ws-auth response'') else Inr s
           | _ \<Rightarrow> Inl (RuntimeError ''Unexpected ws-auth response''))
      | Inr _ \<Rightarrow> Inl (AttributeError ''object has no attribute get''))"

text \<open>
  The \<^verbatim>\<open>finally\<close> block, entered with the token (if one was created) and the
  exception that is on its way out (if any). \<^verbatim>\<open>if token:\<close> holds for a non-empty
  string; an exception of \<^verbatim>\<open>delete_ws_token\<close> is caught and dropped; an exception of
  \<^verbatim>\<open>pd.aclose\<close> or \<^verbatim>\<open>gmo.aclose\<close> leaves the block in place of the pending one.
\<close>

definition teardown :: "cycle_env \<Rightarrow> string option \<Rightarrow> py_error option
    \<Rightarrow> py_error option \<times> effect list" where
  "teardown env token pending =
     (let revoke =
            (case token of
               None \<Rightarrow> []
             | Some tok \<Rightarrow>
                 if tok = [] then []
                 else (case delete_res env of
                         None \<Rightarrow> [CallDeleteToken tok None]
                       | Some e \<Rightarrow> [CallDeleteToken tok (Some e)]))
      in case pd_aclose_res env of
           Some e \<Rightarrow> (Some e, revoke @ [PdAclose])
         | None \<Rightarrow>
             (case gmo_aclose_res env of
                Some e \<Rightarrow> (Some e, revoke @ [PdAclose, GmoAclose])
              | None \<Rightarrow> (pending, revoke @ [PdAclose, GmoAclose])))"

text \<open>
  \<^verbatim>\<open>_run_once\<close>: the exception it raises (if any) and the calls it made. Before the
  \<^verbatim>\<open>try\<close> block, \<^verbatim>\<open>load_config\<close> or the constructor of the cache can raise, and
  with the process monitor enabled the cycle reads \<^verbatim>\<open>cfg.process_monitor_severity\<close>,
  a field that \<^verbatim>\<open>Config\<close> does not have.
\<close>

definition run_once :: "cycle_env \<Rightarrow> py_error option \<times> effect list" where
  "run_once env =
     (case config_res env of
        Inl e \<Rightarrow> (Some e, [])
      | Inr cfg \<Rightarrow>
          (case DedupCache_init (dedup_ttl_sec cfg) (dedup_max_keys cfg) of
             Inl e \<Rightarrow> (Some e, [])
           | Inr dedup \<Rightarrow>
               if process_monitor_enabled cfg
               then (Some (AttributeError ''process_monitor_severity''), [])
               else
                 (case create_ws_token (ws_auth_resp env) of
                    Inl e \<Rightarrow>
                      (fst (teardown env None (Some e)),
                       CallCreateToken # snd (teardown env None (Some e)))
                  | Inr token \<Rightarrow>
                      (case connect_res env of
                         Some e \<Rightarrow>
                           (fst (teardown env (Some token) (Some e)),
                            CallCreateToken # WsConnect (gmocoin_private_ws_base cfg @ token)
                              # snd (teardown env (Some token) (Some e)))
                       | None \<Rightarrow>
                           (fst (teardown env (Some token) (session_res env)),
                            CallCreateToken # WsConnect (gmocoin_private_ws_base cfg @ token)
                              # snd (teardown env (Some token) (session_res env)))))))"

text \<open>The tokens of the revoke calls among the calls of a cycle.\<close>

fun delete_calls :: "effect list \<Rightarrow> string list" where
  "delete_calls [] = []"
| "delete_calls (CallDeleteToken tok r # es) = tok # delete_calls es"
| "delete_calls (x # es) = delete_calls es"

text \<open>
  A concrete cycle to run the model on: the token \<open>tok\<close> is created, the stream
  opens and later breaks, and the revoke call fails.
\<close>

definition example_config :: Config where
  "example_config =
     \<lparr>gmocoin_private_ws_base = ''wss://api.coin.z.com/ws/private/v1/'',
      dedup_ttl_sec = 300, dedup_max_keys = 5000, process_monitor_enabled = False\<rparr>"

definition example_cycle :: cycle_env where
  "example_cycle =
     \<lparr>config_res = Inr example_config,
      ws_auth_resp = Inr (Some (JObj [(''status'', JInt 0), (''data'', JStr ''tok'')])),
      connect_res = None,
      session_res = Some (RuntimeError ''connection closed''),
      delete_res = Some (RuntimeError ''GMO Coin API error''),
      pd_aclose_res = None,
      gmo_aclose_res = None\<rparr>"

section \<open>Properties of the cache\<close>

lemma length_prune_entries: "length (prune_entries cutoff xs) \<le> length xs"
  by (induction xs) (auto simp: le_SucI)

lemma length_enforce_entries: "0 \<le> mx \<Longrightarrow> int (length (enforce_entries mx xs)) \<le> mx"
  by (induction xs) auto

lemma length_move_to_end:
  "distinct (map fst xs) \<Longrightarrow> length (move_to_end key xs) = length xs"
proof (cases "map_of xs key")
  case None
  then show ?thesis by (simp add: move_to_end_def)
next
  case (Some ts)
  assume d: "distinct (map fst xs)"
  from Some have "key \<in> fst ` set xs"
    by (metis map_of_eq_None_iff option.distinct(1))
  with d have "length (filter (\<lambda>p. fst p = key) xs) = 1"
  proof (induction xs)
    case Nil
    then show ?case by simp
  next
    case (Cons a xs)
    then show ?case by (auto simp: filter_empty_conv image_iff)
  qed
  moreover have "length xs = length (filter (\<lambda>p. fst p = key) xs)
                 + length (filter (\<lambda>p. fst p \<noteq> key) xs)"
    using sum_length_filter_compl [of "\<lambda>p. fst p = key" xs] by simp
  ultimately show ?thesis using Some by (simp add: move_to_end_def)
qed

lemma prune_entries_suffix: "\<exists>ys. xs = ys @ prune_entries cutoff xs"
proof (induction xs)
  case Nil
  then show ?case by simp
next
  case (Cons a xs)
  obtain k ts where a: "a = (k, ts)" by (cases a)
  show ?case
  proof (cases "ts > cutoff")
    case True
    then have "a # xs = [] @ prune_entries cutoff (a # xs)" using a by simp
    then show ?thesis by blast
  next
    case False
    from Cons obtain ys where "xs = ys @ prune_entries cutoff xs" by blast
    then have "a # xs = (a # ys) @ prune_entries cutoff xs" by simp
    moreover have "prune_entries cutoff (a # xs) = prune_entries cutoff xs"
      using False a by simp
    ultimately show ?thesis by metis
  qed
qed

lemma enforce_entries_suffix: "\<exists>ys. xs = ys @ enforce_entries mx xs"
proof (induction xs)
  case Nil
  then show ?case by simp
next
  case (Cons a xs)
  show ?case
  proof (cases "int (length (a # xs)) > mx")
    case True
    from Cons obtain ys where "xs = ys @ enforce_entries mx xs" by blast
    then have "a # xs = (a # ys) @ enforce_entries mx xs" by simp
    moreover have "enforce_entries mx (a # xs) = enforce_entries mx xs"
      using True by simp
    ultimately show ?thesis by metis
  next
    case False
    then have "a # xs = [] @ enforce_entries mx (a # xs)" by simp
    then show ?thesis by blast
  qed
qed

lemma distinct_prune_entries:
  "distinct (map fst xs) \<Longrightarrow> distinct (map fst (prune_entries cutoff xs))"
proof -
  assume d: "distinct (map fst xs)"
  obtain ys where "xs = ys @ prune_entries cutoff xs"
    using prune_entries_suffix by blast
  then have "map fst xs = map fst ys @ map fst (prune_entries cutoff xs)"
    by (metis map_append)
  with d show ?thesis by (metis distinct_append)
qed

lemma distinct_enforce_entries:
  "distinct (map fst xs) \<Longrightarrow> distinct (map fst (enforce_entries mx xs))"
proof -
  assume d: "distinct (map fst xs)"
  obtain ys where "xs = ys @ enforce_entries mx xs"
    using enforce_entries_suffix by blast
  then have "map fst xs = map fst ys @ map fst (enforce_entries mx xs)"
    by (metis map_append)
  with d show ?thesis by (metis distinct_append)
qed

lemma distinct_insert_new:
  "distinct (map fst xs) \<Longrightarrow> map_of xs key = None \<Longrightarrow> distinct (map fst (xs @ [(key, now)]))"
  by (simp add: map_of_eq_None_iff)

lemma distinct_move_to_end:
  "distinct (map fst xs) \<Longrightarrow> distinct (map fst (move_to_end key xs))"
  by (auto simp: move_to_end_def distinct_map_filter split: option.splits)

lemma cache_inv_init: "DedupCache_init ttl mx = Inr c \<Longrightarrow> cache_inv c"
  by (auto simp: DedupCache_init_def cache_inv_def wf_cache_def split: if_splits)

lemma cache_inv_prune: "cache_inv c \<Longrightarrow> cache_inv (prune c now)"
  unfolding cache_inv_def wf_cache_def prune_def
  using length_prune_entries [of "now - real_of_int (ttl_sec c)" "seen c"]
  by (simp add: distinct_prune_entries)

lemma cache_inv_enforce_max: "cache_inv c \<Longrightarrow> cache_inv (enforce_max c)"
  unfolding cache_inv_def wf_cache_def enforce_max_def
  by (simp add: distinct_enforce_entries length_enforce_entries)

lemma cache_inv_seen_recently:
  assumes "cache_inv c"
  shows "cache_inv (snd (seen_recently c key now))"
proof -
  let ?c1 = "prune c now"
  have inv1: "cache_inv ?c1" using assms by (rule cache_inv_prune)
  show ?thesis
  proof (cases "map_of (seen ?c1) key")
    case None
    have "distinct (map fst (seen ?c1 @ [(key, now)]))"
      using inv1 None by (simp add: cache_inv_def wf_cache_def map_of_eq_None_iff)
    then have "distinct (map fst (enforce_entries (max_keys ?c1) (seen ?c1 @ [(key, now)])))"
      by (rule distinct_enforce_entries)
    moreover have "int (length (enforce_entries (max_keys ?c1) (seen ?c1 @ [(key, now)])))
                   \<le> max_keys ?c1"
      using inv1 by (intro length_enforce_entries) (simp add: cache_inv_def)
    ultimately show ?thesis
      using inv1 None
      by (simp add: seen_recently_def Let_def enforce_max_def cache_inv_def wf_cache_def)
  next
    case (Some ts)
    have d: "distinct (map fst (seen ?c1))"
      using inv1 by (simp add: cache_inv_def wf_cache_def)
    have "length (move_to_end key (seen ?c1)) = length (seen ?c1)"
      using d by (rule length_move_to_end)
    moreover have "distinct (map fst (move_to_end key (seen ?c1)))"
      using d by (rule distinct_move_to_end)
    ultimately show ?thesis
      using inv1 Some
      by (simp add: seen_recently_def Let_def cache_inv_def wf_cache_def)
  qed
qed

lemma cache_inv_run_calls: "cache_inv c \<Longrightarrow> cache_inv (run_calls c ops)"
proof (induction ops arbitrary: c)
  case Nil
  then show ?case by simp
next
  case (Cons a ops)
  obtain k now where a: "a = (k, now)" by (cases a)
  show ?case using Cons a by (simp add: cache_inv_seen_recently)
qed

lemma max_keys_seen_recently [simp]:
  "max_keys (snd (seen_recently c key now)) = max_keys c"
  by (simp add: seen_recently_def Let_def prune_def enforce_max_def split: option.splits)

lemma ttl_sec_seen_recently [simp]:
  "ttl_sec (snd (seen_recently c key now)) = ttl_sec c"
  by (simp add: seen_recently_def Let_def prune_def enforce_max_def split: option.splits)

lemma max_keys_run_calls [simp]: "max_keys (run_calls c ops) = max_keys c"
  by (induction ops arbitrary: c) auto

lemma ttl_sec_run_calls [simp]: "ttl_sec (run_calls c ops) = ttl_sec c"
  by (induction ops arbitrary: c) auto

text \<open>
  Claim C3 (capacity invariant). A cache built by the constructor (which only
  succeeds for \<open>max_keys > 0\<close>) holds at most \<open>max_keys\<close> entries after every
  sequence of \<^verbatim>\<open>seen_recently\<close> calls, whatever the keys and clock readings; and each
  operation of the cache (\<^verbatim>\<open>seen_recently\<close>, \<^verbatim>\<open>_prune\<close>, \<^verbatim>\<open>_enforce_max\<close>)
  preserves the invariant that carries the bound.
\<close>

theorem capacity_invariant:
  "(DedupCache_init ttl mx = Inr c0 \<longrightarrow>
      0 < mx \<and> int (length (seen (run_calls c0 ops))) \<le> mx)
   \<and> (cache_inv c \<longrightarrow>
        int (length (seen (snd (seen_recently c key now)))) \<le> max_keys c
        \<and> cache_inv (snd (seen_recently c key now))
        \<and> cache_inv (prune c now)
        \<and> cache_inv (enforce_max c))"
proof (intro conjI impI)
  assume i: "DedupCache_init ttl mx = Inr c0"
  then show "0 < mx" by (auto simp: DedupCache_init_def split: if_splits)
  from i have m: "max_keys c0 = mx" by (auto simp: DedupCache_init_def split: if_splits)
  from i have "cache_inv (run_calls c0 ops)"
    by (intro cache_inv_run_calls cache_inv_init)
  then show "int (length (seen (run_calls c0 ops))) \<le> mx"
    using m by (simp add: cache_inv_def)
next
  assume c: "cache_inv c"
  then have s: "cache_inv (snd (seen_recently c key now))" by (rule cache_inv_seen_recently)
  then show "int (length (seen (snd (seen_recently c key now)))) \<le> max_keys c"
    by (simp add: cache_inv_def)
  show "cache_inv (snd (seen_recently c key now))" by (rule s)
  show "cache_inv (prune c now)" using c by (rule cache_inv_prune)
  show "cache_inv (enforce_max c)" using c by (rule cache_inv_enforce_max)
qed

theorem capacity_invariant_witness:
  "DedupCache_init 300 2 = Inr \<lparr>ttl_sec = 300, max_keys = 2, seen = []\<rparr>
   \<and> int (length (seen (run_calls \<lparr>ttl_sec = 300, max_keys = 2, seen = []\<rparr>
         [(''a'', 0), (''b'', 1), (''c'', 2)]))) \<le> 2
   \<and> cache_inv \<lparr>ttl_sec = 300, max_keys = 2, seen = [(''a'', 0), (''b'', 1)]\<rparr>
   \<and> int (length (seen (snd (seen_recently
         \<lparr>ttl_sec = 300, max_keys = 2, seen = [(''a'', 0), (''b'', 1)]\<rparr> ''c'' 2)))) \<le> 2"
proof -
  have i: "DedupCache_init 300 2 = Inr \<lparr>ttl_sec = 300, max_keys = 2, seen = []\<rparr>"
    by (simp add: DedupCache_init_def)
  have v: "cache_inv \<lparr>ttl_sec = 300, max_keys = 2, seen = [(''a'', 0), (''b'', 1)]\<rparr>"
    by (simp add: cache_inv_def wf_cache_def)
  show ?thesis
    using i v
      capacity_invariant [of 300 2 "\<lparr>ttl_sec = 300, max_keys = 2, seen = []\<rparr>"
        "[(''a'', 0), (''b'', 1), (''c'', 2)]"
        "\<lparr>ttl_sec = 300, max_keys = 2, seen = [(''a'', 0), (''b'', 1)]\<rparr>" "''c''" 2]
    by simp
qed

subsection \<open>What a miss does\<close>

lemma enforce_entries_drop:
  "0 \<le> mx \<Longrightarrow> enforce_entries mx xs = drop (length xs - nat mx) xs"
proof (induction xs)
  case Nil
  then show ?case by simp
next
  case (Cons a xs)
  show ?case
  proof (cases "int (length (a # xs)) > mx")
    case True
    then have "length (a # xs) - nat mx = Suc (length xs - nat mx)"
      using Cons.prems by (simp add: Suc_diff_le nat_le_iff)
    then show ?thesis using True Cons by simp
  next
    case False
    then have "length (a # xs) - nat mx = 0" using Cons.prems by simp
    then show ?thesis using False by (simp del: length_Cons)
  qed
qed

lemma seen_recently_miss:
  assumes "map_of (seen (prune c now)) key = None"
  shows "seen_recently c key now =
           (False, enforce_max ((prune c now)\<lparr>seen := seen (prune c now) @ [(key, now)]\<rparr>))"
  using assms by (simp add: seen_recently_def Let_def)

lemma absent_after_prune:
  "key \<notin> fst ` set (seen c) \<Longrightarrow> map_of (seen (prune c now)) key = None"
proof -
  assume a: "key \<notin> fst ` set (seen c)"
  obtain ys where "seen c = ys @ prune_entries (now - real_of_int (ttl_sec c)) (seen c)"
    using prune_entries_suffix by blast
  then have "set (prune_entries (now - real_of_int (ttl_sec c)) (seen c)) \<subseteq> set (seen c)"
    by (metis set_append sup_ge2)
  with a have "key \<notin> fst ` set (prune_entries (now - real_of_int (ttl_sec c)) (seen c))"
    by blast
  then show ?thesis by (simp add: prune_def map_of_eq_None_iff)
qed

lemma map_of_drop_snoc_new:
  assumes "key \<notin> fst ` set xs" and "n \<le> length xs"
  shows "map_of (drop n (xs @ [(key, now)])) key = Some now"
proof -
  have "set (drop n xs) \<subseteq> set xs" by (rule set_drop_subset)
  with assms(1) have "key \<notin> fst ` set (drop n xs)" by blast
  then have "map_of (drop n xs) key = None" by (simp add: map_of_eq_None_iff)
  then show ?thesis using assms(2) by (simp add: map_add_def)
qed

text \<open>
  Claim C4 as it stands says that a miss evicts the least-recently-inserted entries.
  The code evicts from the front of the dictionary order, and a hit moves its key to
  the back (\<^verbatim>\<open>move_to_end\<close>, under the comment \<^verbatim>\<open># Refresh recency.\<close>): with
  \<open>max_keys = 2\<close>, after \<open>a\<close> is inserted at time 0, \<open>b\<close> inserted at time 1 and
  \<open>a\<close> hit at time 2, the miss on \<open>c\<close> at time 3 evicts \<open>b\<close> and keeps \<open>a\<close>,
  although \<open>a\<close> is the entry inserted least recently.
\<close>

theorem miss_eviction_counterexample:
  "seen (run_calls \<lparr>ttl_sec = 300, max_keys = 2, seen = []\<rparr>
          [(''a'', 0), (''b'', 1), (''a'', 2)]) = [(''b'', 1), (''a'', 0)]
   \<and> seen_recently \<lparr>ttl_sec = 300, max_keys = 2, seen = [(''b'', 1), (''a'', 0)]\<rparr> ''c'' 3
       = (False, \<lparr>ttl_sec = 300, max_keys = 2, seen = [(''a'', 0), (''c'', 3)]\<rparr>)
   \<and> (0::real) < 1"
  by (simp add: seen_recently_def prune_def enforce_max_def move_to_end_def)

lemma miss_result:
  assumes "0 < max_keys c" and "key \<notin> fst ` set (seen c)"
  shows "fst (seen_recently c key now) = False
         \<and> seen (snd (seen_recently c key now))
             = drop (length (seen (prune c now)) + 1 - nat (max_keys c))
                 (seen (prune c now) @ [(key, now)])
         \<and> map_of (seen (snd (seen_recently c key now))) key = Some now
         \<and> int (length (seen (snd (seen_recently c key now)))) \<le> max_keys c"
proof -
  let ?xs = "seen (prune c now)"
  let ?n = "length ?xs + 1 - nat (max_keys c)"
  have none: "map_of ?xs key = None" using assms(2) by (rule absent_after_prune)
  have mk: "max_keys (prune c now) = max_keys c" by (simp add: prune_def)
  have r: "seen_recently c key now =
             (False, enforce_max ((prune c now)\<lparr>seen := ?xs @ [(key, now)]\<rparr>))"
    using none by (rule seen_recently_miss)
  have s: "seen (snd (seen_recently c key now)) = drop ?n (?xs @ [(key, now)])"
    using assms(1) mk by (simp add: r enforce_max_def enforce_entries_drop)
  have notin: "key \<notin> fst ` set ?xs" using none by (simp add: map_of_eq_None_iff)
  have le: "?n \<le> length ?xs" using assms(1) by simp
  have m: "map_of (drop ?n (?xs @ [(key, now)])) key = Some now"
    using notin le by (rule map_of_drop_snoc_new)
  have l: "int (length (drop ?n (?xs @ [(key, now)]))) \<le> max_keys c"
    using assms(1) by simp
  have f: "fst (seen_recently c key now) = False" by (simp add: r)
  have m': "map_of (seen (snd (seen_recently c key now))) key = Some now"
    using m by (simp only: s)
  have l': "int (length (seen (snd (seen_recently c key now)))) \<le> max_keys c"
    using l by (simp only: s)
  show ?thesis using f s m' l' by blast
qed

text \<open>
  Claim C4, amended. When \<^verbatim>\<open>seen_recently\<close> is called with a key that is not in the
  cache, the call returns \<open>False\<close>, the key is stored with timestamp \<open>now\<close>, and the
  bound is enforced by removing entries from the front of the dictionary order (the
  entries inserted or hit least recently), exactly as many as are over the bound: the
  dictionary after the call is the pruned dictionary with the new entry appended, less
  its first \<open>length - max_keys\<close> entries.
\<close>

theorem miss_inserts_and_evicts_front:
  assumes "0 < max_keys c" and "key \<notin> fst ` set (seen c)"
  shows "fst (seen_recently c key now) = False
         \<and> seen (snd (seen_recently c key now))
             = drop (length (seen (prune c now)) + 1 - nat (max_keys c))
                 (seen (prune c now) @ [(key, now)])
         \<and> map_of (seen (snd (seen_recently c key now))) key = Some now
         \<and> int (length (seen (snd (seen_recently c key now)))) \<le> max_keys c"
  using assms by (rule miss_result)

theorem miss_inserts_and_evicts_front_witness:
  "0 < max_keys \<lparr>ttl_sec = 300, max_keys = 2, seen = [(''b'', 1), (''a'', 0)]\<rparr>
   \<and> ''c'' \<notin> fst ` set (seen \<lparr>ttl_sec = 300, max_keys = 2, seen = [(''b'', 1), (''a'', 0)]\<rparr>)
   \<and> fst (seen_recently \<lparr>ttl_sec = 300, max_keys = 2, seen = [(''b'', 1), (''a'', 0)]\<rparr>
        ''c'' 3) = False
   \<and> map_of (seen (snd (seen_recently
        \<lparr>ttl_sec = 300, max_keys = 2, seen = [(''b'', 1), (''a'', 0)]\<rparr> ''c'' 3))) ''c''
       = Some 3"
proof -
  have h1: "0 < max_keys \<lparr>ttl_sec = 300, max_keys = 2, seen = [(''b'', 1), (''a'', 0)]\<rparr>"
    by simp
  have h2: "''c'' \<notin> fst ` set (seen \<lparr>ttl_sec = 300, max_keys = 2,
              seen = [(''b'', 1), (''a'', 0)]\<rparr>)"
    by simp
  show ?thesis
    using h1 h2 miss_inserts_and_evicts_front [OF h1 h2, of 3] by blast
qed

subsection \<open>The time-to-live window\<close>

lemma wf_cache_seen_recently:
  assumes "wf_cache c"
  shows "wf_cache (snd (seen_recently c key now))"
proof -
  let ?c1 = "prune c now"
  have d: "distinct (map fst (seen ?c1))"
    using assms by (simp add: wf_cache_def prune_def distinct_prune_entries)
  show ?thesis
  proof (cases "map_of (seen ?c1) key")
    case None
    have "distinct (map fst (seen ?c1 @ [(key, now)]))"
      using d None by (rule distinct_insert_new)
    then have "distinct (map fst (enforce_entries (max_keys ?c1) (seen ?c1 @ [(key, now)])))"
      by (rule distinct_enforce_entries)
    then show ?thesis
      using None by (simp add: seen_recently_def Let_def enforce_max_def wf_cache_def)
  next
    case (Some ts)
    have "distinct (map fst (move_to_end key (seen ?c1)))"
      using d by (rule distinct_move_to_end)
    then show ?thesis
      using Some by (simp add: seen_recently_def Let_def wf_cache_def)
  qed
qed

lemma guarded_absent: "k \<notin> fst ` set xs \<Longrightarrow> guarded k t xs"
  by (induction xs) auto

lemma guarded_suffix:
  "distinct (map fst (ys @ xs)) \<Longrightarrow> guarded k t (ys @ xs) \<Longrightarrow> guarded k t xs"
proof (induction ys)
  case Nil
  then show ?case by simp
next
  case (Cons a ys)
  obtain j ts where a: "a = (j, ts)" by (cases a)
  show ?case
  proof (cases "j = k")
    case True
    with Cons.prems(1) a have "k \<notin> fst ` set xs" by auto
    then show ?thesis by (rule guarded_absent)
  next
    case False
    with Cons a show ?thesis by simp
  qed
qed

lemma guarded_snoc:
  "j \<noteq> k \<Longrightarrow> guarded k t xs \<Longrightarrow> guarded k t (xs @ [(j, now)])"
  by (induction xs) auto

lemma guarded_filter:
  "j \<noteq> k \<Longrightarrow> guarded k t xs \<Longrightarrow> guarded k t (filter (\<lambda>p. fst p \<noteq> j) xs)"
proof (induction xs)
  case Nil
  then show ?case by simp
next
  case (Cons a xs)
  obtain i ts where a: "a = (i, ts)" by (cases a)
  have mem: "k \<in> fst ` set (filter (\<lambda>p. fst p \<noteq> j) xs) \<longleftrightarrow> k \<in> fst ` set xs"
    using Cons.prems(1) by force
  show ?case
  proof (cases "i = k")
    case True
    with Cons.prems a show ?thesis by simp
  next
    case False
    with Cons a mem show ?thesis by simp
  qed
qed

lemma guarded_move_to_end:
  "j \<noteq> k \<Longrightarrow> guarded k t xs \<Longrightarrow> guarded k t (move_to_end j xs)"
  by (simp add: move_to_end_def guarded_filter guarded_snoc split: option.splits)

lemma guarded_all_le:
  "\<forall>p\<in>set xs. snd p \<le> t \<and> (fst p = k \<longrightarrow> snd p = t) \<Longrightarrow> guarded k t xs"
  by (induction xs) auto

lemma guarded_prune_expired:
  "distinct (map fst xs) \<Longrightarrow> guarded k t xs \<Longrightarrow> t \<le> cutoff
     \<Longrightarrow> k \<notin> fst ` set (prune_entries cutoff xs)"
proof (induction xs)
  case Nil
  then show ?case by simp
next
  case (Cons a xs)
  obtain j ts where a: "a = (j, ts)" by (cases a)
  obtain ys where ys: "xs = ys @ prune_entries cutoff xs"
    using prune_entries_suffix by blast
  have sub: "set (prune_entries cutoff xs) \<subseteq> set xs"
    by (metis ys set_append sup_ge2)
  show ?case
  proof (cases "j = k")
    case True
    with Cons.prems a have "ts \<le> cutoff" and "k \<notin> fst ` set xs" by auto
    then show ?thesis using a sub by auto
  next
    case False
    note jk = this
    show ?thesis
    proof (cases "k \<in> fst ` set xs")
      case True
      with Cons.prems a jk have "ts \<le> cutoff" and "guarded k t xs" by auto
      moreover have "distinct (map fst xs)" using Cons.prems(1) by simp
      ultimately show ?thesis using Cons.IH Cons.prems(3) a by simp
    next
      case False
      then have "k \<notin> fst ` set (a # xs)" using jk a by simp
      moreover have "set (prune_entries cutoff (a # xs)) \<subseteq> set (a # xs)"
        using sub a by auto
      ultimately show ?thesis by blast
    qed
  qed
qed

lemma guarded_seen_recently:
  assumes "wf_cache c" and "guarded k t (seen c)" and "j \<noteq> k"
  shows "guarded k t (seen (snd (seen_recently c j now)))"
proof -
  let ?cut = "now - real_of_int (ttl_sec c)"
  let ?xs = "prune_entries ?cut (seen c)"
  obtain ys where ys: "seen c = ys @ ?xs" using prune_entries_suffix by blast
  have d0: "distinct (map fst (ys @ ?xs))" using assms(1) ys by (simp add: wf_cache_def)
  have g0: "guarded k t (ys @ ?xs)" using assms(2) ys by simp
  have g1: "guarded k t ?xs" using d0 g0 by (rule guarded_suffix)
  have d1: "distinct (map fst ?xs)" using assms(1) by (simp add: wf_cache_def distinct_prune_entries)
  show ?thesis
  proof (cases "map_of ?xs j")
    case None
    let ?zs = "?xs @ [(j, now)]"
    obtain us where us: "?zs = us @ enforce_entries (max_keys c) ?zs"
      using enforce_entries_suffix by blast
    have "distinct (map fst ?zs)" using d1 None by (rule distinct_insert_new)
    then have d2: "distinct (map fst (us @ enforce_entries (max_keys c) ?zs))"
      using us by simp
    have "guarded k t ?zs" using assms(3) g1 by (rule guarded_snoc)
    then have g2: "guarded k t (us @ enforce_entries (max_keys c) ?zs)" using us by simp
    have "guarded k t (enforce_entries (max_keys c) ?zs)" using d2 g2 by (rule guarded_suffix)
    then show ?thesis
      using None by (simp add: seen_recently_def Let_def prune_def enforce_max_def)
  next
    case (Some ts)
    have "guarded k t (move_to_end j ?xs)" using assms(3) g1 by (rule guarded_move_to_end)
    then show ?thesis
      using Some by (simp add: seen_recently_def Let_def prune_def)
  qed
qed

lemma guarded_run_calls:
  "wf_cache c \<Longrightarrow> guarded k t (seen c) \<Longrightarrow> k \<notin> fst ` set ops
     \<Longrightarrow> wf_cache (run_calls c ops) \<and> guarded k t (seen (run_calls c ops))"
proof (induction ops arbitrary: c)
  case Nil
  then show ?case by simp
next
  case (Cons a ops)
  obtain j now where a: "a = (j, now)" by (cases a)
  have jk: "j \<noteq> k" using Cons.prems(3) a by auto
  have w: "wf_cache (snd (seen_recently c j now))"
    using Cons.prems(1) by (rule wf_cache_seen_recently)
  have g: "guarded k t (seen (snd (seen_recently c j now)))"
    using Cons.prems(1,2) jk by (rule guarded_seen_recently)
  have "k \<notin> fst ` set ops" using Cons.prems(3) by simp
  with Cons.IH [OF w g] show ?case using a by simp
qed

lemma guarded_first_insert:
  assumes "k \<notin> fst ` set (seen c)" and "\<forall>p\<in>set (seen c). snd p \<le> t"
  shows "guarded k t (seen (snd (seen_recently c k t)))"
proof -
  let ?xs = "seen (prune c t)"
  let ?zs = "?xs @ [(k, t)]"
  have none: "map_of ?xs k = None" using assms(1) by (rule absent_after_prune)
  obtain ys where "seen c = ys @ prune_entries (t - real_of_int (ttl_sec c)) (seen c)"
    using prune_entries_suffix by blast
  then have s1: "set ?xs \<subseteq> set (seen c)"
    by (metis prune_def DedupCache.select_convs(3) DedupCache.surjective
        DedupCache.update_convs(3) set_append sup_ge2)
  obtain us where "?zs = us @ enforce_entries (max_keys (prune c t)) ?zs"
    using enforce_entries_suffix by blast
  then have s2: "set (enforce_entries (max_keys (prune c t)) ?zs) \<subseteq> set ?zs"
    by (metis set_append sup_ge2)
  have "\<forall>p\<in>set ?zs. snd p \<le> t \<and> (fst p = k \<longrightarrow> snd p = t)"
    using s1 assms by force
  with s2 have "\<forall>p\<in>set (enforce_entries (max_keys (prune c t)) ?zs).
                  snd p \<le> t \<and> (fst p = k \<longrightarrow> snd p = t)"
    by blast
  then have "guarded k t (enforce_entries (max_keys (prune c t)) ?zs)"
    by (rule guarded_all_le)
  then show ?thesis using none by (simp add: seen_recently_miss enforce_max_def)
qed

lemma expired_guarded_is_miss:
  assumes "wf_cache c" and "guarded k t (seen c)" and "t + real_of_int (ttl_sec c) \<le> now"
  shows "\<not> fst (seen_recently c k now)"
proof -
  have "distinct (map fst (seen c))" using assms(1) by (simp add: wf_cache_def)
  moreover have "t \<le> now - real_of_int (ttl_sec c)" using assms(3) by simp
  ultimately have "k \<notin> fst ` set (prune_entries (now - real_of_int (ttl_sec c)) (seen c))"
    using assms(2) by (intro guarded_prune_expired)
  then have "map_of (seen (prune c now)) k = None"
    by (simp add: prune_def map_of_eq_None_iff)
  then show ?thesis by (simp add: seen_recently_miss)
qed

lemma map_of_prune_entries_fresh:
  "map_of xs k = Some t \<Longrightarrow> cutoff < t \<Longrightarrow> map_of (prune_entries cutoff xs) k = Some t"
proof (induction xs)
  case Nil
  then show ?case by simp
next
  case (Cons a xs)
  obtain j ts where a: "a = (j, ts)" by (cases a)
  show ?case
  proof (cases "ts > cutoff")
    case True
    then show ?thesis using Cons.prems a by simp
  next
    case False
    with Cons.prems a have "j \<noteq> k" by auto
    with Cons a False show ?thesis by simp
  qed
qed

lemma map_of_move_to_end_same:
  "map_of xs k = Some t \<Longrightarrow> map_of (move_to_end k xs) k = Some t"
proof -
  assume m: "map_of xs k = Some t"
  have "k \<notin> fst ` set (filter (\<lambda>p. fst p \<noteq> k) xs)" by auto
  then have "map_of (filter (\<lambda>p. fst p \<noteq> k) xs) k = None"
    by (simp add: map_of_eq_None_iff)
  then show ?thesis using m by (simp add: move_to_end_def map_add_def)
qed

lemma hit_keeps_timestamp:
  "map_of (seen (prune c now)) k = Some t
     \<Longrightarrow> map_of (seen (snd (seen_recently c k now))) k = Some t"
  by (simp add: seen_recently_def Let_def map_of_move_to_end_same)

lemma within_window_hit:
  assumes "map_of (seen c) k = Some t" and "now < t + real_of_int (ttl_sec c)"
  shows "fst (seen_recently c k now) \<and> map_of (seen (snd (seen_recently c k now))) k = Some t"
proof -
  have "now - real_of_int (ttl_sec c) < t" using assms(2) by simp
  with assms(1) have p: "map_of (seen (prune c now)) k = Some t"
    by (simp add: prune_def map_of_prune_entries_fresh)
  have "ttl_sec (prune c now) = ttl_sec c" by (simp add: prune_def)
  then have "fst (seen_recently c k now)"
    using p assms(2) by (simp add: seen_recently_def Let_def)
  then show ?thesis using p by (simp add: hit_keeps_timestamp)
qed

lemma map_of_suffix_distinct:
  "distinct (map fst (ys @ xs)) \<Longrightarrow> map_of xs k = Some v \<Longrightarrow> map_of (ys @ xs) k = Some v"
proof -
  assume d: "distinct (map fst (ys @ xs))" and m: "map_of xs k = Some v"
  from m have "k \<in> fst ` set xs" by (metis map_of_eq_None_iff option.distinct(1))
  with d have "k \<notin> fst ` set ys" by auto
  then have "map_of ys k = None" by (simp add: map_of_eq_None_iff)
  then show ?thesis using m by (simp add: map_add_def)
qed

lemma after_window_false:
  assumes "wf_cache c" and "map_of (seen c) k = Some t"
    and "t + real_of_int (ttl_sec c) < now"
  shows "\<not> fst (seen_recently c k now)"
proof (cases "map_of (seen (prune c now)) k")
  case None
  then show ?thesis by (simp add: seen_recently_miss)
next
  case (Some ts)
  let ?xs = "prune_entries (now - real_of_int (ttl_sec c)) (seen c)"
  obtain ys where ys: "seen c = ys @ ?xs" using prune_entries_suffix by blast
  have "distinct (map fst (ys @ ?xs))" using assms(1) ys by (simp add: wf_cache_def)
  moreover have "map_of ?xs k = Some ts" using Some by (simp add: prune_def)
  ultimately have "map_of (ys @ ?xs) k = Some ts" by (rule map_of_suffix_distinct)
  then have "ts = t" using assms(2) ys by simp
  moreover have "ttl_sec (prune c now) = ttl_sec c" by (simp add: prune_def)
  ultimately show ?thesis using Some assms(3) by (simp add: seen_recently_def Let_def)
qed

text \<open>
  Claim C2 as it stands promises \<open>True\<close> for every call inside the window. The bound
  \<^verbatim>\<open>max_keys\<close> is enforced on every miss, so a key can be evicted inside its window:
  with \<open>max_keys = 1\<close> and \<open>ttl_sec = 300\<close>, key \<open>k\<close> is inserted at time 0, key
  \<open>j\<close> at time 1 (which evicts \<open>k\<close>), and the call for \<open>k\<close> at time 2 returns
  \<open>False\<close>.
\<close>

theorem ttl_window_counterexample:
  "(2::real) < 0 + real_of_int 300
   \<and> seen (snd (seen_recently \<lparr>ttl_sec = 300, max_keys = 1, seen = []\<rparr> ''k'' 0))
       = [(''k'', 0)]
   \<and> \<not> fst (seen_recently
        (run_calls \<lparr>ttl_sec = 300, max_keys = 1, seen = []\<rparr> [(''k'', 0), (''j'', 1)])
        ''k'' 2)"
  by (simp add: seen_recently_def prune_def enforce_max_def move_to_end_def)

text \<open>
  At the boundary \<open>t' = t + ttl\<close> the two tests of the code differ: \<^verbatim>\<open>_prune\<close>
  removes an entry of that age when it is first in the order, while the hit test
  \<^verbatim>\<open>(now - ts) <= ttl\<close> still accepts it. A key that was hit and so stands behind a
  younger entry therefore still answers \<open>True\<close> at exactly \<open>t + ttl\<close>.
\<close>

lemma boundary_hit_example:
  "fst (seen_recently \<lparr>ttl_sec = 10, max_keys = 2, seen = [(''j'', 5), (''k'', 0)]\<rparr> ''k'' 10)"
  by (simp add: seen_recently_def prune_def)

text \<open>
  Claim C2, amended. Let \<open>ttl\<close> be \<^verbatim>\<open>ttl_sec\<close>.
  \<^item> While key \<open>k\<close> is stored with first-seen time \<open>t\<close> (it has not been evicted by the
    \<^verbatim>\<open>max_keys\<close> bound), a call at any time \<open>t' < t + ttl\<close> returns \<open>True\<close>, and
    the stored timestamp is still \<open>t\<close> afterwards.
  \<^item> If \<open>k\<close> is first inserted at time \<open>t\<close> into a cache whose timestamps are all at
    most \<open>t\<close> (the clock has not run backwards), then after any sequence of calls for
    other keys, at any times, a call for \<open>k\<close> at \<open>t' \<ge> t + ttl\<close> returns \<open>False\<close>.
  \<^item> A hit never changes the stored timestamp, only the position; so whatever hits
    there were, a call at any time \<open>t' > t + ttl\<close> for a key stored with first-seen
    time \<open>t\<close> returns \<open>False\<close>.
\<close>

theorem ttl_window:
  "(map_of (seen ca) ka = Some ta \<and> na < ta + real_of_int (ttl_sec ca)
      \<longrightarrow> fst (seen_recently ca ka na)
          \<and> map_of (seen (snd (seen_recently ca ka na))) ka = Some ta)
   \<and> (wf_cache cb \<and> kb \<notin> fst ` set (seen cb) \<and> (\<forall>p\<in>set (seen cb). snd p \<le> tb)
        \<and> kb \<notin> fst ` set ops \<and> tb + real_of_int (ttl_sec cb) \<le> nb
      \<longrightarrow> \<not> fst (seen_recently (run_calls (snd (seen_recently cb kb tb)) ops) kb nb))
   \<and> (map_of (seen (prune cc nc)) kc = Some tc
      \<longrightarrow> map_of (seen (snd (seen_recently cc kc nc))) kc = Some tc)
   \<and> (wf_cache cd \<and> map_of (seen cd) kd = Some td \<and> td + real_of_int (ttl_sec cd) < nd
      \<longrightarrow> \<not> fst (seen_recently cd kd nd))"
proof (intro conjI impI)
  assume "map_of (seen ca) ka = Some ta \<and> na < ta + real_of_int (ttl_sec ca)"
  then have w: "fst (seen_recently ca ka na)
      \<and> map_of (seen (snd (seen_recently ca ka na))) ka = Some ta"
    by (intro within_window_hit) simp_all
  from w show "fst (seen_recently ca ka na)" by simp
  from w show "map_of (seen (snd (seen_recently ca ka na))) ka = Some ta" by simp
next
  assume b: "wf_cache cb \<and> kb \<notin> fst ` set (seen cb) \<and> (\<forall>p\<in>set (seen cb). snd p \<le> tb)
        \<and> kb \<notin> fst ` set ops \<and> tb + real_of_int (ttl_sec cb) \<le> nb"
  let ?c1 = "snd (seen_recently cb kb tb)"
  have w1: "wf_cache ?c1" using b by (intro wf_cache_seen_recently) simp
  have g1: "guarded kb tb (seen ?c1)" using b by (intro guarded_first_insert) simp_all
  have "kb \<notin> fst ` set ops" using b by simp
  with w1 g1 have r: "wf_cache (run_calls ?c1 ops) \<and> guarded kb tb (seen (run_calls ?c1 ops))"
    by (rule guarded_run_calls)
  have "tb + real_of_int (ttl_sec (run_calls ?c1 ops)) \<le> nb" using b by simp
  with r show "\<not> fst (seen_recently (run_calls ?c1 ops) kb nb)"
    by (intro expired_guarded_is_miss [of _ kb tb]) simp_all
next
  assume "map_of (seen (prune cc nc)) kc = Some tc"
  then show "map_of (seen (snd (seen_recently cc kc nc))) kc = Some tc"
    by (rule hit_keeps_timestamp)
next
  assume "wf_cache cd \<and> map_of (seen cd) kd = Some td \<and> td + real_of_int (ttl_sec cd) < nd"
  then show "\<not> fst (seen_recently cd kd nd)"
    by (intro after_window_false [of _ _ td]) simp_all
qed

theorem ttl_window_witness:
  "(map_of (seen \<lparr>ttl_sec = 300, max_keys = 2, seen = [(''j'', 5), (''k'', 0)]\<rparr>) ''k'' = Some 0
    \<and> (299::real) < 0 + real_of_int 300
    \<and> fst (seen_recently \<lparr>ttl_sec = 300, max_keys = 2, seen = [(''j'', 5), (''k'', 0)]\<rparr>
         ''k'' 299))
   \<and> (wf_cache \<lparr>ttl_sec = 300, max_keys = 2, seen = [(''i'', 0)]\<rparr>
      \<and> ''k'' \<notin> fst ` set [(''i'', 0::real)]
      \<and> ''k'' \<notin> fst ` set [(''j'', 2::real), (''i'', 3)]
      \<and> (1::real) + real_of_int 300 \<le> 301
      \<and> \<not> fst (seen_recently (run_calls (snd (seen_recently
            \<lparr>ttl_sec = 300, max_keys = 2, seen = [(''i'', 0)]\<rparr> ''k'' 1))
            [(''j'', 2), (''i'', 3)]) ''k'' 301))
   \<and> (map_of (seen (prune \<lparr>ttl_sec = 300, max_keys = 2, seen = [(''j'', 5), (''k'', 0)]\<rparr>
         200)) ''k'' = Some 0
      \<and> map_of (seen (snd (seen_recently
          \<lparr>ttl_sec = 300, max_keys = 2, seen = [(''j'', 5), (''k'', 0)]\<rparr> ''k'' 200))) ''k''
         = Some 0)
   \<and> (wf_cache \<lparr>ttl_sec = 300, max_keys = 2, seen = [(''j'', 5), (''k'', 0)]\<rparr>
      \<and> (0::real) + real_of_int 300 < 301
      \<and> \<not> fst (seen_recently \<lparr>ttl_sec = 300, max_keys = 2, seen = [(''j'', 5), (''k'', 0)]\<rparr>
            ''k'' 301))"
proof -
  let ?c = "\<lparr>ttl_sec = 300, max_keys = 2, seen = [(''j'', 5::real), (''k'', 0)]\<rparr>"
  let ?b = "\<lparr>ttl_sec = 300, max_keys = 2, seen = [(''i'', 0::real)]\<rparr>"
  have a1: "map_of (seen ?c) ''k'' = Some 0" by simp
  have a2: "(299::real) < 0 + real_of_int (ttl_sec ?c)" by simp
  have b1: "wf_cache ?b" by (simp add: wf_cache_def)
  have b2: "''k'' \<notin> fst ` set (seen ?b)" by simp
  have b3: "\<forall>p\<in>set (seen ?b). snd p \<le> 1" by simp
  have b4: "''k'' \<notin> fst ` set [(''j'', 2::real), (''i'', 3)]" by simp
  have b5: "(1::real) + real_of_int (ttl_sec ?b) \<le> 301" by simp
  have c1: "map_of (seen (prune ?c 200)) ''k'' = Some 0" by (simp add: prune_def)
  have d1: "wf_cache ?c" by (simp add: wf_cache_def)
  have d2: "(0::real) + real_of_int (ttl_sec ?c) < 301" by simp
  note t = ttl_window [of ?c "''k''" 0 299 ?b "''k''" 1 "[(''j'', 2), (''i'', 3)]" 301
      ?c 200 "''k''" 0 ?c "''k''" 0 301]
  show ?thesis
    using a1 a2 b1 b2 b3 b4 b5 c1 d1 d2 t by simp
qed

section \<open>Properties of the paging client\<close>

text \<open>
  Claim C9 (dry-run no-op). With \<^verbatim>\<open>dry_run\<close> set, \<^verbatim>\<open>trigger\<close> and \<^verbatim>\<open>resolve\<close>
  return normally and send no request, whatever the arguments and whatever the
  backend would answer.
\<close>

theorem dry_run_no_op:
  "dry_run c \<Longrightarrow>
     trigger c backend a = (Inr (), []) \<and> resolve c backend key = (Inr (), [])"
  by (simp add: trigger_def resolve_def)

theorem dry_run_no_op_witness:
  "dry_run \<lparr>routing_key = ''rk'', events_api_url = ''https://events.pagerduty.com/v2/enqueue'',
       source = ''gmocoin-exec-alert'', severity = ''critical'', dry_run = True\<rparr>
   \<and> trigger \<lparr>routing_key = ''rk'', events_api_url = ''https://events.pagerduty.com/v2/enqueue'',
       source = ''gmocoin-exec-alert'', severity = ''critical'', dry_run = True\<rparr>
       (\<lambda>r. Response 500 ''down'')
       \<lparr>dedup_key = ''gmocoin:executionEvents:O1:E1'', summary = ''s'', custom_details = [],
        component = None, group = None, class_arg = None\<rparr> = (Inr (), [])
   \<and> resolve \<lparr>routing_key = ''rk'', events_api_url = ''https://events.pagerduty.com/v2/enqueue'',
       source = ''gmocoin-exec-alert'', severity = ''critical'', dry_run = True\<rparr>
       (\<lambda>r. Response 500 ''down'') ''gmocoin:executionEvents:O1:E1'' = (Inr (), [])"
proof -
  let ?c = "\<lparr>routing_key = ''rk'', events_api_url = ''https://events.pagerduty.com/v2/enqueue'',
       source = ''gmocoin-exec-alert'', severity = ''critical'', dry_run = True\<rparr>"
  have h: "dry_run ?c" by simp
  show ?thesis
    using h dry_run_no_op [OF h, of "\<lambda>r. Response 500 ''down''"
        "\<lparr>dedup_key = ''gmocoin:executionEvents:O1:E1'', summary = ''s'', custom_details = [],
          component = None, group = None, class_arg = None\<rparr>"
        "''gmocoin:executionEvents:O1:E1''"]
    by blast
qed

text \<open>
  Claim C10. Outside dry-run mode \<^verbatim>\<open>trigger\<close> and \<^verbatim>\<open>resolve\<close> send exactly one
  request each, and they return normally if and only if the backend answers it with
  status 202; every other status (200 and 204 as well) makes the call raise
  \<^verbatim>\<open>RuntimeError\<close>, and when no response arrives the error of the HTTP client
  propagates.
\<close>

theorem only_202_succeeds:
  "\<not> dry_run c \<Longrightarrow>
     snd (trigger c backend a) = [(events_api_url c, trigger_body c a)]
     \<and> (fst (trigger c backend a) = Inr ()
          \<longleftrightarrow> (\<exists>txt. backend (events_api_url c, trigger_body c a) = Response 202 txt))
     \<and> (\<forall>st txt. backend (events_api_url c, trigger_body c a) = Response st txt \<and> st \<noteq> 202
          \<longrightarrow> (\<exists>m. fst (trigger c backend a) = Inl (RuntimeError m)))
     \<and> snd (resolve c backend key) = [(events_api_url c, resolve_body c key)]
     \<and> (fst (resolve c backend key) = Inr ()
          \<longleftrightarrow> (\<exists>txt. backend (events_api_url c, resolve_body c key) = Response 202 txt))
     \<and> (\<forall>st txt. backend (events_api_url c, resolve_body c key) = Response st txt \<and> st \<noteq> 202
          \<longrightarrow> (\<exists>m. fst (resolve c backend key) = Inl (RuntimeError m)))"
  by (auto simp: trigger_def resolve_def Let_def split: http_result.splits)

theorem only_202_succeeds_witness:
  "\<not> dry_run \<lparr>routing_key = ''rk'', events_api_url = ''u'', source = ''s'',
                severity = ''critical'', dry_run = False\<rparr>
   \<and> (\<exists>m. fst (trigger \<lparr>routing_key = ''rk'', events_api_url = ''u'', source = ''s'',
                severity = ''critical'', dry_run = False\<rparr> (\<lambda>r. Response 200 ''OK'')
              \<lparr>dedup_key = ''k'', summary = ''s'', custom_details = [],
               component = None, group = None, class_arg = None\<rparr>) = Inl (RuntimeError m))
   \<and> (\<exists>m. fst (resolve \<lparr>routing_key = ''rk'', events_api_url = ''u'', source = ''s'',
                severity = ''critical'', dry_run = False\<rparr> (\<lambda>r. Response 204 '''')
              ''k'') = Inl (RuntimeError m))
   \<and> fst (trigger \<lparr>routing_key = ''rk'', events_api_url = ''u'', source = ''s'',
                severity = ''critical'', dry_run = False\<rparr> (\<lambda>r. Response 202 ''Accepted'')
              \<lparr>dedup_key = ''k'', summary = ''s'', custom_details = [],
               component = None, group = None, class_arg = None\<rparr>) = Inr ()"
proof -
  let ?c = "\<lparr>routing_key = ''rk'', events_api_url = ''u'', source = ''s'',
             severity = ''critical'', dry_run = False\<rparr>"
  let ?a = "\<lparr>dedup_key = ''k'', summary = ''s'', custom_details = [],
             component = None, group = None, class_arg = None\<rparr>"
  have h: "\<not> dry_run ?c" by simp
  have t200: "\<exists>m. fst (trigger ?c (\<lambda>r. Response 200 ''OK'') ?a) = Inl (RuntimeError m)"
    using only_202_succeeds [OF h, of "\<lambda>r. Response 200 ''OK''" ?a "''k''"] by simp
  have r204: "\<exists>m. fst (resolve ?c (\<lambda>r. Response 204 '''') ''k'') = Inl (RuntimeError m)"
    using only_202_succeeds [OF h, of "\<lambda>r. Response 204 ''''" ?a "''k''"] by simp
  have t202: "fst (trigger ?c (\<lambda>r. Response 202 ''Accepted'') ?a) = Inr ()"
    using only_202_succeeds [OF h, of "\<lambda>r. Response 202 ''Accepted''" ?a "''k''"] by simp
  show ?thesis using h t200 r204 t202 by blast
qed

section \<open>Properties of the reconnect loop\<close>

lemma runner_loop_append:
  "runner_loop base mx b (rs @ ss) =
     (fst (runner_loop base mx b rs) @ fst (runner_loop base mx (snd (runner_loop base mx b rs)) ss),
      snd (runner_loop base mx (snd (runner_loop base mx b rs)) ss))"
proof (induction base mx b rs rule: runner_loop.induct)
  case (1 base mx backoff)
  then show ?case by simp
next
  case (2 base mx backoff rs)
  then show ?case by simp
next
  case (3 base mx backoff e rs)
  then show ?case by (simp add: split_def Let_def)
qed

lemma double_cap: "min (min (2 ^ k) 30 * 2) (30::int) = min (2 ^ Suc k) 30"
  by (cases "(2::int) ^ k \<le> 30") auto

lemma failures_from_power:
  "fst (runner_loop 1 30 (min (2 ^ k) 30) (map Some es))
     = map (\<lambda>i. min (2 ^ (k + i)) 30) [0..<length es]"
proof (induction es arbitrary: k)
  case Nil
  then show ?case by simp
next
  case (Cons e es)
  have "fst (runner_loop 1 30 (min (2 ^ k) 30) (map Some (e # es)))
          = min (2 ^ k) 30 # fst (runner_loop 1 30 (min (2 ^ Suc k) 30) (map Some es))"
    by (simp add: split_def Let_def double_cap del: power_Suc)
  also have "\<dots> = min (2 ^ k) 30 # map (\<lambda>i. min (2 ^ (Suc k + i)) 30) [0..<length es]"
    by (simp only: Cons.IH)
  also have "\<dots> = map (\<lambda>i. min (2 ^ (k + i)) 30) [0..<length (e # es)]"
    by (simp add: map_upt_Suc del: upt_Suc power_Suc)
  finally show ?case .
qed

lemma failures_from_base:
  "fst (runner_loop 1 30 1 (map Some es)) = map (\<lambda>i. min (2 ^ i) 30) [0..<length es]"
  using failures_from_power [of 0 es] by simp

lemma failures_step:
  "Suc i < length es \<Longrightarrow>
     fst (runner_loop base mx b (map Some es)) ! Suc i
       = min (fst (runner_loop base mx b (map Some es)) ! i * 2) mx"
proof (induction es arbitrary: b i)
  case Nil
  then show ?case by simp
next
  case (Cons e es)
  show ?case
  proof (cases i)
    case 0
    with Cons.prems obtain e' es' where m: "es = e' # es'" by (cases es) auto
    show ?thesis using 0 m by (simp add: split_def Let_def)
  next
    case (Suc j)
    with Cons.prems have "Suc j < length es" by simp
    from Cons.IH [OF this, of "min (b * 2) mx"] show ?thesis
      using Suc by (simp add: split_def Let_def)
  qed
qed

lemma reset_after_success: "snd (runner_loop base mx b (rs @ [None])) = base"
  by (simp add: runner_loop_append)

text \<open>
  Claim C5 (backoff sequence). With base 1 and maximum 30, the delays waited under
  consecutive failed cycles are 1, 2, 4, 8, 16, 30, 30, ...: the \<open>i\<close>-th delay is
  \<open>min (2 ^ i) 30\<close>, each delay is the minimum of twice the previous one and the
  maximum, the delays never decrease and never exceed 30; and after a cycle that
  returned normally \<^verbatim>\<open>backoff\<close> is the base again, so the delays start over from it.
\<close>

theorem backoff_sequence:
  "fst (runner 1 30 (map Some [e1, e2, e3, e4, e5, e6, e7])) = [1, 2, 4, 8, 16, 30, 30]
   \<and> fst (runner 1 30 (map Some es)) = map (\<lambda>i. min (2 ^ i) 30) [0..<length es]
   \<and> (\<forall>i. Suc i < length es \<longrightarrow>
         fst (runner 1 30 (map Some es)) ! Suc i
           = min (fst (runner 1 30 (map Some es)) ! i * 2) 30)
   \<and> (\<forall>i j. i \<le> j \<and> j < length es \<longrightarrow>
         fst (runner 1 30 (map Some es)) ! i \<le> fst (runner 1 30 (map Some es)) ! j
         \<and> fst (runner 1 30 (map Some es)) ! j \<le> 30)
   \<and> snd (runner_loop base mx b (rs @ [None])) = base
   \<and> fst (runner_loop 1 30 b (rs @ None # map Some es))
       = fst (runner_loop 1 30 b rs) @ map (\<lambda>i. min (2 ^ i) 30) [0..<length es]"
proof (intro conjI allI impI)
  show "fst (runner 1 30 (map Some [e1, e2, e3, e4, e5, e6, e7])) = [1, 2, 4, 8, 16, 30, 30]"
    by (simp add: runner_def)
  show all: "fst (runner 1 30 (map Some es)) = map (\<lambda>i. min (2 ^ i) 30) [0..<length es]"
    by (simp only: runner_def failures_from_base)
  show "fst (runner 1 30 (map Some es)) ! Suc i
          = min (fst (runner 1 30 (map Some es)) ! i * 2) 30"
    if "Suc i < length es" for i
    using that by (simp only: runner_def failures_step)
  show "fst (runner 1 30 (map Some es)) ! i \<le> fst (runner 1 30 (map Some es)) ! j"
    if "i \<le> j \<and> j < length es" for i j
  proof -
    have "(2::int) ^ i \<le> 2 ^ j" using that by (simp add: power_increasing)
    then have "min ((2::int) ^ i) 30 \<le> min (2 ^ j) 30" by linarith
    then show ?thesis using that by (simp add: all)
  qed
  show "fst (runner 1 30 (map Some es)) ! j \<le> 30" if "i \<le> j \<and> j < length es" for i j
    using that by (simp add: all)
  show "snd (runner_loop base mx b (rs @ [None])) = base" by (rule reset_after_success)
  have "fst (runner_loop 1 30 b (rs @ None # map Some es))
          = fst (runner_loop 1 30 b rs) @ fst (runner_loop 1 30 1 (map Some es))"
    by (simp add: runner_loop_append)
  then show "fst (runner_loop 1 30 b (rs @ None # map Some es))
       = fst (runner_loop 1 30 b rs) @ map (\<lambda>i. min (2 ^ i) 30) [0..<length es]"
    by (simp only: failures_from_base)
qed

theorem backoff_sequence_witness:
  "Suc 4 < length [ValueError ''a'', ValueError ''b'', ValueError ''c'', ValueError ''d'',
        ValueError ''e'', ValueError ''f'', ValueError ''g'']
   \<and> fst (runner 1 30 (map Some [ValueError ''a'', ValueError ''b'', ValueError ''c'',
        ValueError ''d'', ValueError ''e'', ValueError ''f'', ValueError ''g''])) ! Suc 4 = 30
   \<and> fst (runner 1 30 (map Some [ValueError ''a'', ValueError ''b'', ValueError ''c'',
        ValueError ''d'', ValueError ''e'', ValueError ''f'', ValueError ''g''])) ! 4 = 16
   \<and> fst (runner_loop 1 30 1 ([Some (ValueError ''a''), Some (ValueError ''b'')]
        @ None # map Some [ValueError ''c'', ValueError ''d''])) = [1, 2, 1, 2]"
proof -
  let ?es = "[ValueError ''a'', ValueError ''b'', ValueError ''c'', ValueError ''d'',
        ValueError ''e'', ValueError ''f'', ValueError ''g'']"
  note t = backoff_sequence [of "ValueError ''a''" "ValueError ''b''" "ValueError ''c''"
      "ValueError ''d''" "ValueError ''e''" "ValueError ''f''" "ValueError ''g''" ?es
      1 30 1 "[Some (ValueError ''a''), Some (ValueError ''b'')]"]
  have l: "Suc 4 < length ?es" by simp
  from t have seq: "fst (runner 1 30 (map Some ?es)) = [1, 2, 4, 8, 16, 30, 30]" by blast
  have a: "fst (runner 1 30 (map Some ?es)) ! Suc 4 = 30" by (simp only: seq) simp
  have b: "fst (runner 1 30 (map Some ?es)) ! 4 = 16" by (simp only: seq) simp
  note u = backoff_sequence [of "ValueError ''a''" "ValueError ''b''" "ValueError ''c''"
      "ValueError ''d''" "ValueError ''e''" "ValueError ''f''" "ValueError ''g''"
      "[ValueError ''c'', ValueError ''d'']" 1 30 1
      "[Some (ValueError ''a''), Some (ValueError ''b'')]"]
  from u have "fst (runner_loop 1 30 1 ([Some (ValueError ''a''), Some (ValueError ''b'')]
        @ None # map Some [ValueError ''c'', ValueError ''d'']))
      = fst (runner_loop 1 30 1 [Some (ValueError ''a''), Some (ValueError ''b'')])
        @ map (\<lambda>i. min (2 ^ i) 30) [0..<length [ValueError ''c'', ValueError ''d'']]"
    by blast
  then have c: "fst (runner_loop 1 30 1 ([Some (ValueError ''a''), Some (ValueError ''b'')]
        @ None # map Some [ValueError ''c'', ValueError ''d''])) = [1, 2, 1, 2]"
    by (simp add: upt_rec)
  show ?thesis using l a b c by blast
qed

section \<open>Properties of the receive loop\<close>

subsection \<open>The deduplication key\<close>

lemma sorted_items_eq:
  assumes "distinct (map fst xs)" and "distinct (map fst ys)" and "map_of xs = map_of ys"
  shows "sort_key fst xs = sort_key fst ys"
proof -
  have s: "set xs = set ys" using assms by (simp add: map_of_inject_set)
  have dx: "distinct xs" and dy: "distinct ys"
    using assms(1,2) by (auto simp: distinct_map)
  have "mset xs = mset ys" using s dx dy by (simp add: set_eq_iff_mset_eq_distinct)
  then have m: "mset xs = mset (sort_key fst ys)" by simp
  have i: "inj_on fst (set xs)" using assms(1) by (simp add: distinct_map)
  have o: "sorted (map fst (sort_key fst ys))" by simp
  from m i o show ?thesis by (rule sort_key_inj_key_eq)
qed

lemma json_dumps_same_fields:
  assumes "distinct (map fst e1)" and "distinct (map fst e2)" and "map_of e1 = map_of e2"
  shows "json_dumps lib (JObj e1) = json_dumps lib (JObj e2)"
  using sorted_items_eq [OF assms] by simp

text \<open>
  Claim C8 (determinism of the key). The key is a function of the event; and two
  events with the same fields (the same value under every field name), whatever the
  order in which the fields were inserted, have the same key. In the branch of the
  other channels this holds because \<^verbatim>\<open>json.dumps\<close> is called with
  \<^verbatim>\<open>sort_keys=True\<close>: the text that is hashed is the same for both events.
\<close>

theorem dedup_key_deterministic:
  assumes "distinct (map fst e1)" and "distinct (map fst e2)" and "map_of e1 = map_of e2"
  shows "dedup_key_for_event lib e1 = dedup_key_for_event lib e2
         \<and> json_dumps lib (JObj e1) = json_dumps lib (JObj e2)
         \<and> (get_str_default lib e1 ''channel'' '''' \<noteq> ''executionEvents''
            \<and> get_str_default lib e1 ''channel'' '''' \<noteq> ''orderEvents''
            \<longrightarrow> dedup_key_for_event lib e2
                  = ''gmocoin:'' @ get_str_default lib e1 ''channel'' '''' @ '':''
                    @ str_int (str_hash lib (json_dumps lib (JObj e1))))"
proof -
  have d: "json_dumps lib (JObj e1) = json_dumps lib (JObj e2)"
    using assms by (rule json_dumps_same_fields)
  have g: "get_str lib e1 = get_str lib e2"
    using assms(3) by (simp add: get_str_def fun_eq_iff)
  have h: "get_str_default lib e1 = get_str_default lib e2"
    using assms(3) by (simp add: get_str_default_def fun_eq_iff)
  have k: "dedup_key_for_event lib e1 = dedup_key_for_event lib e2"
    by (simp only: dedup_key_for_event_def d g h)
  have f: "dedup_key_for_event lib e2
             = ''gmocoin:'' @ get_str_default lib e1 ''channel'' '''' @ '':''
               @ str_int (str_hash lib (json_dumps lib (JObj e1)))"
    if "get_str_default lib e1 ''channel'' '''' \<noteq> ''executionEvents''
        \<and> get_str_default lib e1 ''channel'' '''' \<noteq> ''orderEvents''"
  proof -
    have "dedup_key_for_event lib e1
            = ''gmocoin:'' @ get_str_default lib e1 ''channel'' '''' @ '':''
              @ str_int (str_hash lib (json_dumps lib (JObj e1)))"
      using that by (simp add: dedup_key_for_event_def Let_def del: json_dumps.simps)
    then show ?thesis by (simp only: k)
  qed
  show ?thesis using d k f by blast
qed

theorem dedup_key_deterministic_witness:
  "distinct (map fst [(''channel'', JStr ''positionEvents''), (''positionId'', JInt 7)])
   \<and> distinct (map fst [(''positionId'', JInt 7), (''channel'', JStr ''positionEvents'')])
   \<and> map_of [(''channel'', JStr ''positionEvents''), (''positionId'', JInt 7)]
       = map_of [(''positionId'', JInt 7), (''channel'', JStr ''positionEvents'')]
   \<and> dedup_key_for_event example_lib [(''channel'', JStr ''positionEvents''), (''positionId'', JInt 7)]
       = dedup_key_for_event example_lib [(''positionId'', JInt 7), (''channel'', JStr ''positionEvents'')]"
proof -
  let ?e1 = "[(''channel'', JStr ''positionEvents''), (''positionId'', JInt 7)]"
  let ?e2 = "[(''positionId'', JInt 7), (''channel'', JStr ''positionEvents'')]"
  have h1: "distinct (map fst ?e1)" by simp
  have h2: "distinct (map fst ?e2)" by simp
  have h3: "map_of ?e1 = map_of ?e2" by (rule ext) simp
  show ?thesis
    using h1 h2 h3 dedup_key_deterministic [OF h1 h2 h3, of example_lib] by blast
qed

subsection \<open>Malformed messages\<close>

lemma trigger_calls_append [simp]:
  "trigger_calls (xs @ ys) = trigger_calls xs @ trigger_calls ys"
  by (induction xs rule: trigger_calls.induct) auto

lemma recv_body_malformed:
  assumes "\<not> stop_is_set m" and "malformed env m"
  shows "recv_body env c m = (Continue, c, [malformed_log env m])"
proof (cases "loads env (raw m)")
  case None
  then show ?thesis using assms(1) by (simp add: recv_body_def malformed_log_def)
next
  case (Some v)
  with assms(2) have "\<forall>event. v \<noteq> JObj event"
    by (auto simp: malformed_def)
  then show ?thesis
    using Some assms(1) by (cases v) (simp_all add: recv_body_def malformed_log_def)
qed

lemma trigger_calls_malformed_log [simp]:
  "trigger_calls (malformed_log env m # acts) = trigger_calls acts"
  by (simp add: malformed_log_def split: option.splits)

lemma recv_loop_skip_malformed:
  assumes "\<not> stop_is_set m" and "malformed env m"
  shows "fst (recv_loop env closing c (pre @ m # post)) = fst (recv_loop env closing c (pre @ post))
       \<and> fst (snd (recv_loop env closing c (pre @ m # post)))
           = fst (snd (recv_loop env closing c (pre @ post)))
       \<and> trigger_calls (snd (snd (recv_loop env closing c (pre @ m # post))))
           = trigger_calls (snd (snd (recv_loop env closing c (pre @ post))))"
proof (induction pre arbitrary: c)
  case Nil
  have "recv_body env c m = (Continue, c, [malformed_log env m])"
    using assms by (rule recv_body_malformed)
  then show ?case by (simp add: split_def)
next
  case (Cons a pre)
  obtain f c1 acts where b: "recv_body env c a = (f, c1, acts)"
    by (cases "recv_body env c a") auto
  show ?case
  proof (cases f)
    case Continue
    with b Cons.IH [of c1] show ?thesis by (simp add: split_def)
  next
    case Return
    with b show ?thesis by simp
  next
    case (Raise e)
    with b show ?thesis by simp
  qed
qed

text \<open>
  Claim C7 (malformed messages). A message on which \<^verbatim>\<open>json.loads\<close> raises, or which
  parses to something that is not a dict, makes the loop log one warning and go on
  with the next message: the cache is not touched and \<^verbatim>\<open>pd.trigger\<close> is not called
  for it; and the loop ends the same way, with the same cache and the same trigger
  calls, as it does on the stream without that message. (The loop looks at a message
  only while the stop flag is not set.)
\<close>

theorem malformed_message_skipped:
  assumes "\<not> stop_is_set m" and "malformed env m"
  shows "recv_body env c m = (Continue, c, [malformed_log env m])
       \<and> recv_loop env closing c (m # post)
           = (fst (recv_loop env closing c post), fst (snd (recv_loop env closing c post)),
              malformed_log env m # snd (snd (recv_loop env closing c post)))
       \<and> fst (recv_loop env closing c (pre @ m # post))
           = fst (recv_loop env closing c (pre @ post))
       \<and> fst (snd (recv_loop env closing c (pre @ m # post)))
           = fst (snd (recv_loop env closing c (pre @ post)))
       \<and> trigger_calls (snd (snd (recv_loop env closing c (pre @ m # post))))
           = trigger_calls (snd (snd (recv_loop env closing c (pre @ post))))"
proof -
  have b: "recv_body env c m = (Continue, c, [malformed_log env m])"
    using assms by (rule recv_body_malformed)
  then have l: "recv_loop env closing c (m # post)
           = (fst (recv_loop env closing c post), fst (snd (recv_loop env closing c post)),
              malformed_log env m # snd (snd (recv_loop env closing c post)))"
    by (simp add: split_def)
  show ?thesis
    using b l recv_loop_skip_malformed [OF assms, of closing c pre post] by blast
qed

theorem malformed_message_skipped_witness:
  "\<not> stop_is_set (msg ''not json'' 5) \<and> malformed example_env (msg ''not json'' 5)
   \<and> recv_body example_env \<lparr>ttl_sec = 300, max_keys = 2, seen = []\<rparr> (msg ''not json'' 5)
       = (Continue, \<lparr>ttl_sec = 300, max_keys = 2, seen = []\<rparr>, [LogNonJson ''not json''])
   \<and> trigger_calls (snd (snd (recv_loop example_env None
         \<lparr>ttl_sec = 300, max_keys = 2, seen = []\<rparr>
         ([msg ''E1'' 1] @ msg ''not json'' 5 # [msg ''E2'' 6]))))
       = trigger_calls (snd (snd (recv_loop example_env None
         \<lparr>ttl_sec = 300, max_keys = 2, seen = []\<rparr> ([msg ''E1'' 1] @ [msg ''E2'' 6]))))"
proof -
  have h1: "\<not> stop_is_set (msg ''not json'' 5)" by (simp add: msg_def)
  have h2: "malformed example_env (msg ''not json'' 5)"
    by (simp add: malformed_def example_env_def msg_def)
  have g: "malformed_log example_env (msg ''not json'' 5) = LogNonJson ''not json''"
    by (simp add: malformed_log_def example_env_def msg_def)
  show ?thesis
    using h1 h2 g
      malformed_message_skipped [OF h1 h2, of "\<lparr>ttl_sec = 300, max_keys = 2, seen = []\<rparr>"
        None "[msg ''E2'' 6]" "[msg ''E1'' 1]"]
    by simp
qed

subsection \<open>One alert per event\<close>

lemma recv_body_novel:
  assumes "carries env m event"
    and "dedup_key_for_event (runtime env) event \<notin> fst ` set (seen c)"
  shows "\<exists>line. recv_body env c m
           = (Continue, snd (seen_recently c (dedup_key_for_event (runtime env) event) (clock m)),
              [TriggerCall (alert_for env event), line])
         \<and> trigger_calls [TriggerCall (alert_for env event), line] = [alert_for env event]"
proof -
  let ?k = "dedup_key_for_event (runtime env) event"
  have "map_of (seen (prune c (clock m))) ?k = None"
    using assms(2) by (rule absent_after_prune)
  then have f: "\<not> fst (seen_recently c ?k (clock m))" by (simp add: seen_recently_miss)
  show ?thesis
    using assms(1) f
    by (auto simp: carries_def recv_body_def Let_def alert_for_def split: sum.splits)
qed

lemma recv_body_duplicate:
  assumes "carries env m event"
    and "map_of (seen c) (dedup_key_for_event (runtime env) event) = Some t"
    and "clock m < t + real_of_int (ttl_sec c)"
  shows "recv_body env c m
           = (Continue, snd (seen_recently c (dedup_key_for_event (runtime env) event) (clock m)),
              [])"
proof -
  have "fst (seen_recently c (dedup_key_for_event (runtime env) event) (clock m))"
    using within_window_hit [OF assms(2,3)] by simp
  then show ?thesis
    using assms(1) by (simp add: carries_def recv_body_def Let_def)
qed

lemma recv_loop_snoc_duplicate:
  assumes "carries env m event"
  shows "map_of (seen (fst (snd (recv_loop env closing c ms))))
             (dedup_key_for_event (runtime env) event) = Some t
         \<Longrightarrow> clock m < t + real_of_int (ttl_sec (fst (snd (recv_loop env closing c ms))))
         \<Longrightarrow> trigger_calls (snd (snd (recv_loop env closing c (ms @ [m]))))
               = trigger_calls (snd (snd (recv_loop env closing c ms)))"
proof (induction ms arbitrary: c)
  case Nil
  have "recv_body env c m
           = (Continue, snd (seen_recently c (dedup_key_for_event (runtime env) event) (clock m)),
              [])"
    using assms Nil by (intro recv_body_duplicate [of _ _ _ _ t]) simp_all
  then show ?case by simp
next
  case (Cons a ms)
  obtain f c1 acts where b: "recv_body env c a = (f, c1, acts)"
    by (cases "recv_body env c a") auto
  show ?case
  proof (cases f)
    case Continue
    have e: "fst (snd (recv_loop env closing c (a # ms))) = fst (snd (recv_loop env closing c1 ms))"
      using b Continue by (simp add: split_def)
    have "trigger_calls (snd (snd (recv_loop env closing c1 (ms @ [m]))))
            = trigger_calls (snd (snd (recv_loop env closing c1 ms)))"
      using Cons.prems by (intro Cons.IH) (simp_all only: e)
    then show ?thesis using b Continue by (simp add: split_def)
  next
    case Return
    with b show ?thesis by simp
  next
    case (Raise e)
    with b show ?thesis by simp
  qed
qed

lemma recv_loop_novel:
  assumes "carries env m event"
    and "dedup_key_for_event (runtime env) event \<notin> fst ` set (seen c)"
  shows "trigger_calls (snd (snd (recv_loop env closing c [m]))) = [alert_for env event]
       \<and> fst (snd (recv_loop env closing c [m]))
           = snd (seen_recently c (dedup_key_for_event (runtime env) event) (clock m))"
proof -
  obtain line where "recv_body env c m
           = (Continue, snd (seen_recently c (dedup_key_for_event (runtime env) event) (clock m)),
              [TriggerCall (alert_for env event), line])"
      and "trigger_calls [TriggerCall (alert_for env event), line] = [alert_for env event]"
    using recv_body_novel [OF assms] by blast
  then show ?thesis by simp
qed

lemma recv_loop_pair:
  assumes "carries env m1 e1" and "carries env m2 e2"
    and "dedup_key_for_event (runtime env) e2 = dedup_key_for_event (runtime env) e1"
    and "dedup_key_for_event (runtime env) e1 \<notin> fst ` set (seen c)"
    and "0 < max_keys c"
    and "clock m2 < clock m1 + real_of_int (ttl_sec c)"
  shows "trigger_calls (snd (snd (recv_loop env closing c [m1, m2]))) = [alert_for env e1]"
proof -
  let ?k = "dedup_key_for_event (runtime env) e1"
  let ?c1 = "snd (seen_recently c ?k (clock m1))"
  have one: "trigger_calls (snd (snd (recv_loop env closing c [m1]))) = [alert_for env e1]"
    and c1: "fst (snd (recv_loop env closing c [m1])) = ?c1"
    using recv_loop_novel [OF assms(1,4)] by simp_all
  have stored: "map_of (seen ?c1) ?k = Some (clock m1)"
    using miss_result [OF assms(5,4), of "clock m1"] by blast
  have "trigger_calls (snd (snd (recv_loop env closing c ([m1] @ [m2]))))
          = trigger_calls (snd (snd (recv_loop env closing c [m1])))"
  proof (rule recv_loop_snoc_duplicate [OF assms(2), of _ _ _ "clock m1"])
    show "map_of (seen (fst (snd (recv_loop env closing c [m1]))))
            (dedup_key_for_event (runtime env) e2) = Some (clock m1)"
      using stored by (simp only: c1 assms(3))
    show "clock m2 < clock m1
            + real_of_int (ttl_sec (fst (snd (recv_loop env closing c [m1]))))"
      using assms(6) by (simp only: c1 ttl_sec_seen_recently)
  qed
  then show ?thesis using one by simp
qed

lemma example_event_key:
  "dedup_key_for_event l example_event = ''gmocoin:executionEvents:O1:E1''"
  by (simp add: dedup_key_for_event_def get_str_default_def get_str_def example_event_def)

text \<open>
  Claim C1 as it stands says that of any two events with the same key that are
  processed within \<^verbatim>\<open>ttl_sec\<close> of each other exactly one is passed to
  \<^verbatim>\<open>pd.trigger\<close>. The cache is bounded by \<^verbatim>\<open>max_keys\<close>, so a key can be evicted
  between the two: with \<open>max_keys = 1\<close> and \<open>ttl_sec = 300\<close>, the scenario's event at
  time 0, an event of another order at time 0.5 and the scenario's event again at
  time 1 give three trigger calls, two of them with the key of the scenario's event.
\<close>

theorem one_alert_counterexample:
  "map dedup_key (trigger_calls (snd (snd (recv_loop example_env None
       \<lparr>ttl_sec = 300, max_keys = 1, seen = []\<rparr>
       [msg ''E1'' 0, msg ''E2'' (1/2), msg ''E1'' 1]))))
     = [''gmocoin:executionEvents:O1:E1'', ''gmocoin:executionEvents:O2:E2'',
        ''gmocoin:executionEvents:O1:E1'']
   \<and> (1::real) - 0 < real_of_int 300"
  by (simp add: recv_body_def example_env_def msg_def channel_in_def
      seen_recently_def prune_def enforce_max_def move_to_end_def trigger_def Let_def
      example_event_def other_event_def dedup_key_for_event_def get_str_default_def
      get_str_def)

text \<open>
  Claim C1, amended. An event of a subscribed channel whose key is not in the cache is
  passed to \<^verbatim>\<open>pd.trigger\<close> once, with its key, its summary and the event itself. A
  later event with the same key is not passed to \<^verbatim>\<open>pd.trigger\<close> when, at the time it
  is processed, the key is still stored (it has not been evicted by the \<^verbatim>\<open>max_keys\<close>
  bound) and less than \<^verbatim>\<open>ttl_sec\<close> have passed since the key was stored. So two
  events with the same key that are processed one after the other, less than
  \<^verbatim>\<open>ttl_sec\<close> apart, starting from a cache that does not hold the key, give exactly
  one trigger call. In particular the execution event of the scenario, delivered
  twice within one second to a cache built with \<open>ttl_sec = 300\<close>, gives exactly one
  trigger call, with the key \<open>gmocoin:executionEvents:O1:E1\<close>.
\<close>

theorem one_alert_per_event:
  "(carries env ma ea \<and> dedup_key_for_event (runtime env) ea \<notin> fst ` set (seen ca)
      \<longrightarrow> trigger_calls (snd (snd (recv_loop env closing ca [ma]))) = [alert_for env ea])
   \<and> (carries env mb eb
       \<and> map_of (seen (fst (snd (recv_loop env closing cb ms))))
            (dedup_key_for_event (runtime env) eb) = Some tb
       \<and> clock mb < tb + real_of_int (ttl_sec (fst (snd (recv_loop env closing cb ms))))
      \<longrightarrow> trigger_calls (snd (snd (recv_loop env closing cb (ms @ [mb]))))
            = trigger_calls (snd (snd (recv_loop env closing cb ms))))
   \<and> (carries env m1 e1 \<and> carries env m2 e2
       \<and> dedup_key_for_event (runtime env) e2 = dedup_key_for_event (runtime env) e1
       \<and> dedup_key_for_event (runtime env) e1 \<notin> fst ` set (seen c)
       \<and> 0 < max_keys c \<and> clock m2 < clock m1 + real_of_int (ttl_sec c)
      \<longrightarrow> trigger_calls (snd (snd (recv_loop env closing c [m1, m2]))) = [alert_for env e1])
   \<and> (DedupCache_init 300 mx = Inr c0 \<and> loads env r = Some (JObj example_event)
       \<and> ''executionEvents'' \<in> channels env \<and> t2 \<le> t1 + 1
      \<longrightarrow> trigger_calls (snd (snd (recv_loop env closing c0
              [\<lparr>stop_is_set = False, raw = r, clock = t1, paging = p1\<rparr>,
               \<lparr>stop_is_set = False, raw = r, clock = t2, paging = p2\<rparr>])))
            = [alert_for env example_event]
          \<and> dedup_key (alert_for env example_event) = ''gmocoin:executionEvents:O1:E1'')"
proof (intro conjI impI)
  assume "carries env ma ea \<and> dedup_key_for_event (runtime env) ea \<notin> fst ` set (seen ca)"
  then show "trigger_calls (snd (snd (recv_loop env closing ca [ma]))) = [alert_for env ea]"
    using recv_loop_novel [of env ma ea ca closing] by blast
next
  assume b: "carries env mb eb
       \<and> map_of (seen (fst (snd (recv_loop env closing cb ms))))
            (dedup_key_for_event (runtime env) eb) = Some tb
       \<and> clock mb < tb + real_of_int (ttl_sec (fst (snd (recv_loop env closing cb ms))))"
  then have "carries env mb eb" by simp
  from recv_loop_snoc_duplicate [OF this, of closing cb ms tb] b
  show "trigger_calls (snd (snd (recv_loop env closing cb (ms @ [mb]))))
            = trigger_calls (snd (snd (recv_loop env closing cb ms)))"
    by blast
next
  assume "carries env m1 e1 \<and> carries env m2 e2
       \<and> dedup_key_for_event (runtime env) e2 = dedup_key_for_event (runtime env) e1
       \<and> dedup_key_for_event (runtime env) e1 \<notin> fst ` set (seen c)
       \<and> 0 < max_keys c \<and> clock m2 < clock m1 + real_of_int (ttl_sec c)"
  then show "trigger_calls (snd (snd (recv_loop env closing c [m1, m2]))) = [alert_for env e1]"
    by (intro recv_loop_pair [of env m1 e1 m2 e2]) simp_all
next
  assume d: "DedupCache_init 300 mx = Inr c0 \<and> loads env r = Some (JObj example_event)
       \<and> ''executionEvents'' \<in> channels env \<and> t2 \<le> t1 + 1"
  let ?m1 = "\<lparr>stop_is_set = False, raw = r, clock = t1, paging = p1\<rparr>"
  let ?m2 = "\<lparr>stop_is_set = False, raw = r, clock = t2, paging = p2\<rparr>"
  have c0: "c0 = \<lparr>ttl_sec = 300, max_keys = mx, seen = []\<rparr>" and mx: "0 < mx"
    using d by (auto simp: DedupCache_init_def split: if_splits)
  have ch: "channel_in (map_of example_event ''channel'') (channels env) = Inr True"
    using d by (simp add: channel_in_def example_event_def)
  have k1: "carries env ?m1 example_event" and k2: "carries env ?m2 example_event"
    using d ch by (simp_all add: carries_def)
  show "trigger_calls (snd (snd (recv_loop env closing c0 [?m1, ?m2])))
          = [alert_for env example_event]"
    using k1 k2 d mx by (intro recv_loop_pair [of env ?m1 example_event ?m2 example_event])
      (simp_all add: c0)
next
  show "dedup_key (alert_for env example_event) = ''gmocoin:executionEvents:O1:E1''"
    by (simp add: alert_for_def example_event_key)
qed

lemma example_carries: "carries example_env (msg ''E1'' t) example_event"
  by (simp add: carries_def example_env_def msg_def channel_in_def example_event_def)

lemma example_two_messages:
  "fst (snd (recv_loop example_env None \<lparr>ttl_sec = 300, max_keys = 2, seen = []\<rparr>
       [msg ''E1'' 0, msg ''E2'' (1/2)]))
     = \<lparr>ttl_sec = 300, max_keys = 2,
        seen = [(''gmocoin:executionEvents:O1:E1'', 0),
                (''gmocoin:executionEvents:O2:E2'', 1/2)]\<rparr>"
  by (simp add: recv_body_def example_env_def msg_def channel_in_def
      seen_recently_def prune_def enforce_max_def move_to_end_def trigger_def Let_def
      example_event_def other_event_def dedup_key_for_event_def get_str_default_def
      get_str_def)

theorem one_alert_per_event_witness:
  "carries example_env (msg ''E1'' 0) example_event
   \<and> dedup_key_for_event (runtime example_env) example_event
       \<notin> fst ` set (seen \<lparr>ttl_sec = 300, max_keys = 2, seen = []\<rparr>)
   \<and> trigger_calls (snd (snd (recv_loop example_env None
         \<lparr>ttl_sec = 300, max_keys = 2, seen = []\<rparr> [msg ''E1'' 0])))
       = [alert_for example_env example_event]
   \<and> map_of (seen (fst (snd (recv_loop example_env None
         \<lparr>ttl_sec = 300, max_keys = 2, seen = []\<rparr> [msg ''E1'' 0, msg ''E2'' (1/2)]))))
         (dedup_key_for_event (runtime example_env) example_event) = Some 0
   \<and> clock (msg ''E1'' 1) < 0 + real_of_int (ttl_sec (fst (snd (recv_loop example_env None
         \<lparr>ttl_sec = 300, max_keys = 2, seen = []\<rparr> [msg ''E1'' 0, msg ''E2'' (1/2)]))))
   \<and> trigger_calls (snd (snd (recv_loop example_env None
         \<lparr>ttl_sec = 300, max_keys = 2, seen = []\<rparr>
         ([msg ''E1'' 0, msg ''E2'' (1/2)] @ [msg ''E1'' 1]))))
       = trigger_calls (snd (snd (recv_loop example_env None
         \<lparr>ttl_sec = 300, max_keys = 2, seen = []\<rparr> [msg ''E1'' 0, msg ''E2'' (1/2)])))
   \<and> 0 < max_keys \<lparr>ttl_sec = 300, max_keys = 2, seen = []\<rparr>
   \<and> clock (msg ''E1'' 1) < clock (msg ''E1'' 0)
        + real_of_int (ttl_sec \<lparr>ttl_sec = 300, max_keys = 2, seen = []\<rparr>)
   \<and> trigger_calls (snd (snd (recv_loop example_env None
         \<lparr>ttl_sec = 300, max_keys = 2, seen = []\<rparr> [msg ''E1'' 0, msg ''E1'' 1])))
       = [alert_for example_env example_event]
   \<and> DedupCache_init 300 5000 = Inr \<lparr>ttl_sec = 300, max_keys = 5000, seen = []\<rparr>
   \<and> loads example_env ''E1'' = Some (JObj example_event)
   \<and> ''executionEvents'' \<in> channels example_env
   \<and> (1::real) \<le> 0 + 1
   \<and> trigger_calls (snd (snd (recv_loop example_env None
         \<lparr>ttl_sec = 300, max_keys = 5000, seen = []\<rparr>
         [\<lparr>stop_is_set = False, raw = ''E1'', clock = 0, paging = (\<lambda>q. Response 202 '''')\<rparr>,
          \<lparr>stop_is_set = False, raw = ''E1'', clock = 1, paging = (\<lambda>q. Response 202 '''')\<rparr>])))
       = [alert_for example_env example_event]
   \<and> dedup_key (alert_for example_env example_event) = ''gmocoin:executionEvents:O1:E1''"
proof -
  let ?c = "\<lparr>ttl_sec = 300, max_keys = 2, seen = []\<rparr>"
  let ?k = "dedup_key_for_event (runtime example_env) example_event"
  have a1: "carries example_env (msg ''E1'' 0) example_event" by (rule example_carries)
  have a2: "?k \<notin> fst ` set (seen ?c)" by simp
  have b1: "carries example_env (msg ''E1'' 1) example_event" by (rule example_carries)
  have b2: "map_of (seen (fst (snd (recv_loop example_env None ?c
              [msg ''E1'' 0, msg ''E2'' (1/2)])))) ?k = Some 0"
    unfolding example_two_messages example_event_key by simp
  have b3: "clock (msg ''E1'' 1) < 0 + real_of_int (ttl_sec (fst (snd (recv_loop example_env None
              ?c [msg ''E1'' 0, msg ''E2'' (1/2)]))))"
    unfolding example_two_messages by (simp add: msg_def)
  have c1: "0 < max_keys ?c" by simp
  have c2: "clock (msg ''E1'' 1) < clock (msg ''E1'' 0) + real_of_int (ttl_sec ?c)"
    by (simp add: msg_def)
  have d1: "DedupCache_init 300 5000 = Inr \<lparr>ttl_sec = 300, max_keys = 5000, seen = []\<rparr>"
    by (simp add: DedupCache_init_def)
  have d2: "loads example_env ''E1'' = Some (JObj example_event)"
    by (simp add: example_env_def)
  have d3: "''executionEvents'' \<in> channels example_env" by (simp add: example_env_def)
  have d4: "(1::real) \<le> 0 + 1" by simp
  note t = one_alert_per_event [where env = example_env and closing = None
      and ma = "msg ''E1'' 0" and ea = example_event and ca = ?c
      and mb = "msg ''E1'' 1" and eb = example_event and cb = ?c
      and ms = "[msg ''E1'' 0, msg ''E2'' (1/2)]" and tb = 0
      and ?m1.0 = "msg ''E1'' 0" and ?e1.0 = example_event
      and ?m2.0 = "msg ''E1'' 1" and ?e2.0 = example_event and c = ?c
      and mx = 5000 and ?c0.0 = "\<lparr>ttl_sec = 300, max_keys = 5000, seen = []\<rparr>"
      and r = "''E1''" and ?t1.0 = 0 and ?t2.0 = 1
      and ?p1.0 = "\<lambda>q. Response 202 ''''" and ?p2.0 = "\<lambda>q. Response 202 ''''"]
  show ?thesis
    using a1 a2 b1 b2 b3 c1 c2 d1 d2 d3 d4 t by blast
qed

section \<open>Properties of the connection cycle\<close>

lemma create_ws_token_nonempty: "create_ws_token resp = Inr token \<Longrightarrow> token \<noteq> []"
  by (auto simp: create_ws_token_def split: sum.splits option.splits json.splits if_splits)

lemma delete_calls_teardown:
  "token \<noteq> [] \<Longrightarrow> delete_calls (snd (teardown env (Some token) pending)) = [token]"
  by (simp add: teardown_def Let_def split: option.splits)

lemma teardown_ignores_delete_res:
  "fst (teardown (env\<lparr>delete_res := r\<rparr>) token pending) = fst (teardown env token pending)"
  by (simp add: teardown_def Let_def split: option.splits)

text \<open>
  Claim C6 (revoke on teardown). Whenever a cycle has created a token, and so in
  particular whenever it ends after the stream was opened (by a closed stream or by
  an error), the cycle calls \<^verbatim>\<open>delete_ws_token\<close> exactly once, with that token; and
  whether this call fails does not change how the cycle ends: the cycle raises what
  \<^verbatim>\<open>pd.aclose\<close> or \<^verbatim>\<open>gmo.aclose\<close> raise, and otherwise what left the body.
\<close>

theorem teardown_revokes_once:
  assumes "config_res env = Inr cfg"
    and "DedupCache_init (dedup_ttl_sec cfg) (dedup_max_keys cfg) = Inr dedup"
    and "\<not> process_monitor_enabled cfg"
    and "create_ws_token (ws_auth_resp env) = Inr token"
  shows "delete_calls (snd (run_once env)) = [token]
       \<and> fst (run_once (env\<lparr>delete_res := r\<rparr>)) = fst (run_once env)
       \<and> (connect_res env = None \<longrightarrow>
            fst (run_once env)
              = (case pd_aclose_res env of
                   Some e \<Rightarrow> Some e
                 | None \<Rightarrow> (case gmo_aclose_res env of
                              Some e \<Rightarrow> Some e
                            | None \<Rightarrow> session_res env)))"
proof -
  have ne: "token \<noteq> []" using assms(4) by (rule create_ws_token_nonempty)
  have a: "delete_calls (snd (run_once env)) = [token]"
    using assms ne by (simp add: run_once_def delete_calls_teardown split: option.splits)
  have b: "fst (run_once (env\<lparr>delete_res := r\<rparr>)) = fst (run_once env)"
    using assms by (simp add: run_once_def teardown_ignores_delete_res split: option.splits)
  have c: "fst (run_once env)
              = (case pd_aclose_res env of
                   Some e \<Rightarrow> Some e
                 | None \<Rightarrow> (case gmo_aclose_res env of
                              Some e \<Rightarrow> Some e
                            | None \<Rightarrow> session_res env))"
    if "connect_res env = None"
    using assms that by (simp add: run_once_def teardown_def Let_def split: option.splits)
  show ?thesis using a b c by blast
qed

theorem teardown_revokes_once_witness:
  "config_res example_cycle = Inr example_config
   \<and> DedupCache_init (dedup_ttl_sec example_config) (dedup_max_keys example_config)
       = Inr \<lparr>ttl_sec = 300, max_keys = 5000, seen = []\<rparr>
   \<and> \<not> process_monitor_enabled example_config
   \<and> create_ws_token (ws_auth_resp example_cycle) = Inr ''tok''
   \<and> connect_res example_cycle = None
   \<and> delete_res example_cycle = Some (RuntimeError ''GMO Coin API error'')
   \<and> delete_calls (snd (run_once example_cycle)) = [''tok'']
   \<and> fst (run_once (example_cycle\<lparr>delete_res := None\<rparr>)) = fst (run_once example_cycle)
   \<and> fst (run_once example_cycle) = Some (RuntimeError ''connection closed'')"
proof -
  have h1: "config_res example_cycle = Inr example_config" by (simp add: example_cycle_def)
  have h2: "DedupCache_init (dedup_ttl_sec example_config) (dedup_max_keys example_config)
              = Inr \<lparr>ttl_sec = 300, max_keys = 5000, seen = []\<rparr>"
    by (simp add: DedupCache_init_def example_config_def)
  have h3: "\<not> process_monitor_enabled example_config" by (simp add: example_config_def)
  have h4: "create_ws_token (ws_auth_resp example_cycle) = Inr ''tok''"
    by (simp add: create_ws_token_def example_cycle_def)
  have h5: "connect_res example_cycle = None" by (simp add: example_cycle_def)
  have h6: "delete_res example_cycle = Some (RuntimeError ''GMO Coin API error'')"
    by (simp add: example_cycle_def)
  have e: "pd_aclose_res example_cycle = None" "gmo_aclose_res example_cycle = None"
    "session_res example_cycle = Some (RuntimeError ''connection closed'')"
    by (simp_all add: example_cycle_def)
  note t = teardown_revokes_once [OF h1 h2 h3 h4, of None]
  from t h5 e have o: "fst (run_once example_cycle) = Some (RuntimeError ''connection closed'')"
    by simp
  show ?thesis using h1 h2 h3 h4 h5 h6 t o by blast
qed

end
